theory Spec2Isabelle
  imports Complex_Main
begin

section \<open>Errors\<close>

text \<open>
  The exceptions the modelled functions raise. Every \<open>raise\<close> of the source, and every
  failure of a library call the claims depend on, is a branch that returns \<open>Inl\<close>.
  Tensor elements are modelled as real numbers.
\<close>

datatype error = ValueError | RuntimeError | IndexError | NonFinite

text \<open>Sequencing of steps that may raise: the first error ends the computation.\<close>

definition and_then :: "error + 'a \<Rightarrow> ('a \<Rightarrow> error + 'b) \<Rightarrow> error + 'b" where
  "and_then r f = (case r of Inl e \<Rightarrow> Inl e | Inr v \<Rightarrow> f v)"

text \<open>\<open>F.one_hot(i, n)\<close>, as a vector of reals.\<close>

definition one_hot :: "int \<Rightarrow> nat \<Rightarrow> real list" where
  "one_hot i n = map (\<lambda>j. if int j = i then 1 else 0) [0..<n]"

section \<open>Actor construction checks (dreamer\_v3/agent.py, \<open>Actor.__init__\<close>)\<close>

text \<open>
  \<open>str.lower\<close> on the characters of a configuration name; strings are lists of 8-bit
  characters, and only the letters \<open>A\<close> to \<open>Z\<close> have a lower-case form.
\<close>

definition lower_char :: "char \<Rightarrow> char" where
  "lower_char c =
     (if (65::nat) \<le> of_char c \<and> of_char c \<le> (90::nat)
      then char_of (of_char c + (32::nat)) else c)"

definition lower :: "string \<Rightarrow> string" where
  "lower s = map lower_char s"

text \<open>
  The first statements of \<open>Actor.__init__\<close>: the two checks that raise \<open>ValueError\<close>, and
  the resolution of \<open>auto\<close>. The result is the value stored in \<open>self.distribution\<close>.
\<close>

definition Actor_init :: "string \<Rightarrow> bool \<Rightarrow> error + string" where
  "Actor_init distribution is_continuous =
     (let d = lower distribution in
      if d \<notin> set [''auto'', ''normal'', ''tanh_normal'', ''discrete'', ''trunc_normal'']
      then Inl ValueError
      else if d = ''discrete'' \<and> is_continuous then Inl ValueError
      else if d = ''auto''
           then (if is_continuous then Inr ''trunc_normal'' else Inr ''discrete'')
           else Inr d)"

section \<open>Target critic update (sac\_pixel/agent.py, \<open>qfs_target_ema\<close>)\<close>

text \<open>
  The agent holds the parameters of the online critics and of the target critics, each a
  sequence of tensors (a tensor is the list of its elements), and the coefficient \<open>tau\<close>.
  The target critics are a deep copy of the online ones, so the two sequences are separate
  objects.
\<close>

record sac_agent =
  qfs_unwrapped :: "real list list"
  qfs_target :: "real list list"
  tau :: real

text \<open>
  One parameter: \<open>target_param.data.copy_(tau * param.data + (1 - tau) * target_param.data)\<close>.
  Tensors of different sizes cannot be combined elementwise.
\<close>

definition ema_param :: "real \<Rightarrow> real list \<Rightarrow> real list \<Rightarrow> error + real list" where
  "ema_param t param target_param =
     (if length param \<noteq> length target_param then Inl RuntimeError
      else Inr (map2 (\<lambda>p q. t * p + (1 - t) * q) param target_param))"

text \<open>
  The loop over \<open>zip(qfs_unwrapped.parameters(), qfs_target.parameters())\<close>: it stops at the
  end of the shorter sequence and leaves the remaining target parameters as they are.
\<close>

fun ema_loop :: "real \<Rightarrow> real list list \<Rightarrow> real list list \<Rightarrow> error + real list list" where
  "ema_loop t (param # params) (target_param # target_params) =
     (case ema_param t param target_param of
        Inl e \<Rightarrow> Inl e
      | Inr v \<Rightarrow> (case ema_loop t params target_params of
                   Inl e \<Rightarrow> Inl e
                 | Inr vs \<Rightarrow> Inr (v # vs)))"
| "ema_loop t [] target_params = Inr target_params"
| "ema_loop t params [] = Inr []"

definition qfs_target_ema :: "sac_agent \<Rightarrow> error + sac_agent" where
  "qfs_target_ema self =
     (case ema_loop (tau self) (qfs_unwrapped self) (qfs_target self) of
        Inl e \<Rightarrow> Inl e
      | Inr ts \<Rightarrow> Inr (self\<lparr>qfs_target := ts\<rparr>))"

section \<open>Lambda values (dreamer\_v2/utils.py, \<open>compute_lambda_values\<close>)\<close>

text \<open>
  A tensor of shape \<open>[T, B, 1]\<close> is the list of its \<open>T\<close> time slices, each the list of
  its \<open>B\<close> elements; \<open>bootstrap\<close>, of shape \<open>[1, B, 1]\<close>, is one slice. Slices are
  combined elementwise, and slices of different sizes cannot be combined.
\<close>

definition same_shape :: "nat \<Rightarrow> nat \<Rightarrow> real list list \<Rightarrow> bool" where
  "same_shape T B xs = (length xs = T \<and> (\<forall>x \<in> set xs. length x = B))"

text \<open>
  The loop \<open>for i in reversed(range(horizon))\<close>: the first argument counts down, \<open>agg\<close>
  is the running value and \<open>lv\<close> the list the values are appended to.
\<close>

fun lambda_loop ::
  "nat \<Rightarrow> real list list \<Rightarrow> real list list \<Rightarrow> real \<Rightarrow> real list \<Rightarrow> real list list
     \<Rightarrow> real list list" where
  "lambda_loop 0 inputs continues lmbda agg lv = lv"
| "lambda_loop (Suc i) inputs continues lmbda agg lv =
     (let agg = map2 (+) (inputs ! i) (map2 (*) (map (\<lambda>c. c * lmbda) (continues ! i)) agg)
      in lambda_loop i inputs continues lmbda agg (lv @ [agg]))"

definition compute_lambda_values ::
  "real list list \<Rightarrow> real list list \<Rightarrow> real list list \<Rightarrow> real list option \<Rightarrow> nat \<Rightarrow> real
     \<Rightarrow> error + real list list" where
  "compute_lambda_values rewards values continues bootstrap horizon lmbda =
     (let T = length rewards;
          B = (case values of [] \<Rightarrow> 0 | v # _ \<Rightarrow> length v);
          bootstrap = (case bootstrap of None \<Rightarrow> replicate B 0 | Some b \<Rightarrow> b)
      in if \<not> (same_shape T B rewards \<and> same_shape T B values \<and> same_shape T B continues
                \<and> length bootstrap = B)
         then Inl RuntimeError
         else
           let agg = bootstrap;
               next_val = tl values @ [bootstrap];
               inputs = map2 (map2 (+)) rewards
                          (map (map (\<lambda>x. x * (1 - lmbda))) (map2 (map2 (*)) continues next_val))
           in if horizon > T then Inl IndexError
              else if horizon = 0 then Inl RuntimeError
              else Inr (rev (lambda_loop horizon inputs continues lmbda agg [])))"

section \<open>Tensors\<close>

text \<open>
  A tensor is its shape and its elements in row-major order, as a contiguous torch tensor
  is laid out; \<open>view\<close> changes the shape only. The rows of a tensor are the slices along
  its last dimension, which is the dimension the networks, \<open>softmax\<close> and \<open>torch.cat(..., -1)\<close>
  act on.
\<close>

record tensor =
  shape :: "nat list"
  data :: "real list"

definition wf_tensor :: "tensor \<Rightarrow> bool" where
  "wf_tensor t = (length (data t) = prod_list (shape t))"

definition chunks :: "nat \<Rightarrow> 'a list \<Rightarrow> 'a list list" where
  "chunks n xs = map (\<lambda>i. take n (drop (i * n) xs)) [0..<length xs div n]"

definition rows :: "tensor \<Rightarrow> real list list" where
  "rows t = chunks (last (shape t)) (data t)"

definition map_rows :: "(real list \<Rightarrow> real list) \<Rightarrow> tensor \<Rightarrow> tensor" where
  "map_rows f t = t\<lparr>data := concat (map f (rows t))\<rparr>"

text \<open>
  \<open>t.view(*t.shape[:-1], -1, k)\<close>, \<open>t.view(*t.shape[:-2], -1)\<close> and \<open>t.view_as(other)\<close>. A
  view raises when the inferred dimension does not exist.
\<close>

definition view_split :: "nat \<Rightarrow> tensor \<Rightarrow> error + tensor" where
  "view_split k t =
     (if shape t = [] \<or> k = 0 \<or> prod_list (butlast (shape t)) = 0 \<or> \<not> k dvd last (shape t)
      then Inl RuntimeError
      else Inr (t\<lparr>shape := butlast (shape t) @ [last (shape t) div k, k]\<rparr>))"

definition view_merge :: "tensor \<Rightarrow> error + tensor" where
  "view_merge t =
     (if length (shape t) < 2 \<or> prod_list (butlast (butlast (shape t))) = 0
      then Inl RuntimeError
      else Inr (t\<lparr>shape := butlast (butlast (shape t))
                          @ [last (butlast (shape t)) * last (shape t)]\<rparr>))"

definition view_as :: "tensor \<Rightarrow> tensor \<Rightarrow> error + tensor" where
  "view_as t other =
     (if prod_list (shape t) \<noteq> prod_list (shape other) then Inl RuntimeError
      else Inr (t\<lparr>shape := shape other\<rparr>))"

text \<open>
  Elementwise operations. \<open>one_minus t\<close> is \<open>1 - t\<close>; \<open>bmul m t\<close> is \<open>m * t\<close> for a mask
  \<open>m\<close> whose last dimension has size one, broadcast along the last dimension of \<open>t\<close>;
  \<open>tadd\<close> adds tensors of one shape; \<open>tanh_zeros_like t\<close> is
  \<open>torch.tanh(torch.zeros_like(t))\<close>; \<open>cat_last\<close> is \<open>torch.cat((a, b), -1)\<close>.
\<close>

definition one_minus :: "tensor \<Rightarrow> tensor" where
  "one_minus t = t\<lparr>data := map (\<lambda>x. 1 - x) (data t)\<rparr>"

definition bmul :: "tensor \<Rightarrow> tensor \<Rightarrow> tensor" where
  "bmul m t = t\<lparr>data := concat (map2 (\<lambda>c r. map (\<lambda>x. c * x) r) (data m) (rows t))\<rparr>"

definition tadd :: "tensor \<Rightarrow> tensor \<Rightarrow> tensor" where
  "tadd a b = a\<lparr>data := map2 (+) (data a) (data b)\<rparr>"

definition zeros_like :: "tensor \<Rightarrow> tensor" where
  "zeros_like t = t\<lparr>data := replicate (length (data t)) 0\<rparr>"

definition tanh_zeros_like :: "tensor \<Rightarrow> tensor" where
  "tanh_zeros_like t = t\<lparr>data := map tanh (data (zeros_like t))\<rparr>"

definition cat_last :: "tensor \<Rightarrow> tensor \<Rightarrow> tensor" where
  "cat_last a b =
     \<lparr>shape = butlast (shape a) @ [last (shape a) + last (shape b)],
      data = concat (map2 (@) (rows a) (rows b))\<rparr>"

section \<open>Categorical logits (dreamer\_v3/agent.py, \<open>_uniform_mix\<close>)\<close>

text \<open>
  \<open>softmax\<close> on one row; \<open>torch.distributions.utils.probs_to_logits\<close>, which clamps the
  probabilities to \<open>[eps, 1 - eps]\<close> and takes the logarithm, \<open>eps\<close> being the machine
  epsilon of the tensor's floating-point type; and the mixture
  \<open>(1 - unimix) * probs + unimix * uniform\<close> with \<open>uniform = 1 / k\<close>.
\<close>

definition softmax :: "real list \<Rightarrow> real list" where
  "softmax l = map (\<lambda>x. exp x / sum_list (map exp l)) l"

definition clamp_probs :: "real \<Rightarrow> real list \<Rightarrow> real list" where
  "clamp_probs eps probs = map (\<lambda>p. min (max p eps) (1 - eps)) probs"

definition probs_to_logits :: "real \<Rightarrow> real list \<Rightarrow> real list" where
  "probs_to_logits eps probs = map ln (clamp_probs eps probs)"

definition unimix_probs :: "real \<Rightarrow> nat \<Rightarrow> real list \<Rightarrow> real list" where
  "unimix_probs u k l = map (\<lambda>p. (1 - u) * p + u * (1 / real k)) (softmax l)"

text \<open>
  The networks are parameters: a feed-forward module is its output width and the function
  it applies to every row of its input; the recurrent model is the module \<open>mlp\<close> followed
  by the cell \<open>rnn\<close>, which maps a feature row and a state row to the next state row.
\<close>

record module =
  out_features :: nat
  forward :: "real list \<Rightarrow> real list"

definition wf_module :: "module \<Rightarrow> bool" where
  "wf_module m = (0 < out_features m \<and> (\<forall>x. length (forward m x) = out_features m))"

definition apply_module :: "module \<Rightarrow> tensor \<Rightarrow> tensor" where
  "apply_module m t =
     \<lparr>shape = butlast (shape t) @ [out_features m], data = concat (map (forward m) (rows t))\<rparr>"

record recurrent_model =
  mlp :: module
  rnn :: "real list \<Rightarrow> real list \<Rightarrow> real list"

definition wf_recurrent_model :: "recurrent_model \<Rightarrow> bool" where
  "wf_recurrent_model m = (wf_module (mlp m) \<and> (\<forall>x h. length (rnn m x h) = length h))"

definition RecurrentModel_forward :: "recurrent_model \<Rightarrow> tensor \<Rightarrow> tensor \<Rightarrow> tensor" where
  "RecurrentModel_forward self input recurrent_state =
     (let feat = apply_module (mlp self) input
      in recurrent_state\<lparr>data := concat (map2 (rnn self) (rows feat) (rows recurrent_state))\<rparr>)"

record rssm =
  recurrent_model :: recurrent_model
  representation_model :: module
  transition_model :: module
  discrete :: nat
  unimix :: real

definition RSSM_uniform_mix :: "real \<Rightarrow> rssm \<Rightarrow> tensor \<Rightarrow> error + tensor" where
  "RSSM_uniform_mix eps self logits =
     (let dim = length (shape logits) in
      and_then (if dim = 3 then view_split (discrete self) logits
                else if dim \<noteq> 4 then Inl RuntimeError
                else Inr logits)
        (\<lambda>logits.
           if unimix self > 0 \<and> discrete self = 0 then Inl NonFinite
           else view_merge
                  (if unimix self > 0
                   then map_rows (\<lambda>l. probs_to_logits eps
                                          (unimix_probs (unimix self) (discrete self) l)) logits
                   else logits)))"

definition Actor_uniform_mix :: "real \<Rightarrow> real \<Rightarrow> tensor \<Rightarrow> error + tensor" where
  "Actor_uniform_mix eps actor_unimix logits =
     (if actor_unimix > 0
      then (if shape logits = [] then Inl IndexError
            else Inr (map_rows (\<lambda>l. probs_to_logits eps
                                         (unimix_probs actor_unimix (last (shape logits)) l)) logits))
      else Inr logits)"

section \<open>Stochastic state (dreamer\_v2/utils.py, \<open>compute_stochastic_state\<close>)\<close>

text \<open>
  \<open>OneHotCategoricalStraightThrough(logits)\<close> has the probabilities \<open>softmax(logits)\<close> on
  the last dimension; its mode is the one-hot vector of the first largest probability. A
  sample is random: \<open>draw i l\<close> is the one-hot vector drawn for the \<open>i\<close>-th categorical
  variable of the tensor, whose logits are \<open>l\<close>.
\<close>

definition categorical_probs :: "tensor \<Rightarrow> tensor" where
  "categorical_probs logits = map_rows softmax logits"

definition argmax :: "real list \<Rightarrow> nat" where
  "argmax xs = length (takeWhile (\<lambda>x. x < fold max xs (hd xs)) xs)"

definition mode_row :: "real list \<Rightarrow> real list" where
  "mode_row l = one_hot (int (argmax (softmax l))) (length l)"

definition compute_stochastic_state ::
  "tensor \<Rightarrow> nat \<Rightarrow> bool \<Rightarrow> (nat \<Rightarrow> real list \<Rightarrow> real list) \<Rightarrow> error + tensor" where
  "compute_stochastic_state logits discrete_size sample draw =
     and_then (view_split discrete_size logits)
       (\<lambda>logits.
          Inr (if sample
               then logits\<lparr>data := concat (map2 draw [0..<length (rows logits)] (rows logits))\<rparr>
               else map_rows mode_row logits))"

section \<open>The recurrent state-space model (dreamer\_v3/agent.py, \<open>RSSM\<close>)\<close>

definition RSSM_transition ::
  "real \<Rightarrow> rssm \<Rightarrow> tensor \<Rightarrow> bool \<Rightarrow> (nat \<Rightarrow> real list \<Rightarrow> real list)
     \<Rightarrow> error + tensor \<times> tensor" where
  "RSSM_transition eps self recurrent_out sample_state draw =
     and_then (RSSM_uniform_mix eps self (apply_module (transition_model self) recurrent_out))
       (\<lambda>logits.
          and_then (compute_stochastic_state logits (discrete self) sample_state draw)
            (\<lambda>state. Inr (logits, state)))"

definition RSSM_representation ::
  "real \<Rightarrow> rssm \<Rightarrow> tensor \<Rightarrow> tensor \<Rightarrow> (nat \<Rightarrow> real list \<Rightarrow> real list)
     \<Rightarrow> error + tensor \<times> tensor" where
  "RSSM_representation eps self recurrent_state embedded_obs draw =
     and_then (RSSM_uniform_mix eps self
                 (apply_module (representation_model self)
                    (cat_last recurrent_state embedded_obs)))
       (\<lambda>logits.
          and_then (compute_stochastic_state logits (discrete self) True draw)
            (\<lambda>state. Inr (logits, state)))"

text \<open>
  The shapes \<open>dynamic\<close> is written for: the recurrent state, the action, the embedded
  observation and \<open>is_first\<close> share their leading dimensions, \<open>is_first\<close> has a last
  dimension of size one, and the posterior has two trailing dimensions. Other shapes are
  rejected as a whole.
\<close>

definition dynamic_shapes :: "tensor \<Rightarrow> tensor \<Rightarrow> tensor \<Rightarrow> tensor \<Rightarrow> bool" where
  "dynamic_shapes posterior recurrent_state action is_first =
     (let lead = butlast (shape recurrent_state) in
      shape recurrent_state \<noteq> [] \<and> 0 < last (shape recurrent_state)
      \<and> shape action \<noteq> [] \<and> 0 < last (shape action) \<and> butlast (shape action) = lead
      \<and> shape is_first = lead @ [1]
      \<and> 2 \<le> length (shape posterior) \<and> butlast (butlast (shape posterior)) = lead
      \<and> 0 < last (butlast (shape posterior)) * last (shape posterior)
      \<and> wf_tensor posterior \<and> wf_tensor recurrent_state \<and> wf_tensor action
      \<and> wf_tensor is_first)"

text \<open>
  The first statements of \<open>dynamic\<close>, up to the call of the recurrent model: the action,
  the recurrent state and the flattened posterior after the reset.
\<close>

definition dynamic_reset ::
  "real \<Rightarrow> rssm \<Rightarrow> tensor \<Rightarrow> tensor \<Rightarrow> tensor \<Rightarrow> tensor
     \<Rightarrow> error + tensor \<times> tensor \<times> tensor" where
  "dynamic_reset eps self posterior recurrent_state action is_first =
     (if \<not> dynamic_shapes posterior recurrent_state action is_first then Inl RuntimeError
      else
        let action = bmul (one_minus is_first) action;
            recurrent_state = tadd (bmul (one_minus is_first) recurrent_state)
                                   (bmul is_first (tanh_zeros_like recurrent_state))
        in and_then (view_merge posterior)
             (\<lambda>posterior.
                and_then (RSSM_transition eps self recurrent_state False (\<lambda>i l. l))
                  (\<lambda>(prior_logits, prior).
                     and_then (view_as prior posterior)
                       (\<lambda>prior.
                          Inr (action, recurrent_state,
                               tadd (bmul (one_minus is_first) posterior)
                                    (bmul is_first prior))))))"

definition dynamic ::
  "real \<Rightarrow> rssm \<Rightarrow> tensor \<Rightarrow> tensor \<Rightarrow> tensor \<Rightarrow> tensor \<Rightarrow> tensor
     \<Rightarrow> (nat \<Rightarrow> real list \<Rightarrow> real list) \<Rightarrow> (nat \<Rightarrow> real list \<Rightarrow> real list)
     \<Rightarrow> error + tensor \<times> tensor \<times> tensor \<times> tensor \<times> tensor" where
  "dynamic eps self posterior recurrent_state action embedded_obs is_first draw_prior draw_posterior =
     and_then (dynamic_reset eps self posterior recurrent_state action is_first)
       (\<lambda>(action, recurrent_state, posterior).
          if \<not> (shape embedded_obs \<noteq> [] \<and> 0 < last (shape embedded_obs)
                \<and> butlast (shape embedded_obs) = butlast (shape recurrent_state)
                \<and> wf_tensor embedded_obs)
          then Inl RuntimeError
          else
            let recurrent_state =
                  RecurrentModel_forward (recurrent_model self) (cat_last posterior action)
                    recurrent_state
            in and_then (RSSM_transition eps self recurrent_state True draw_prior)
                 (\<lambda>(prior_logits, prior).
                    and_then (RSSM_representation eps self recurrent_state embedded_obs
                                draw_posterior)
                      (\<lambda>(posterior_logits, posterior).
                         Inr (recurrent_state, posterior, prior, posterior_logits, prior_logits))))"

section \<open>Row views\<close>

text \<open>
  What the functions above compute on one row of their input: the mixed logits of a row of
  network outputs, the mode of a row of logits, and the mode prior of a row of recurrent
  state. The lemmas show that the tensor functions act row by row.
\<close>

definition unimix_row :: "real \<Rightarrow> rssm \<Rightarrow> real list \<Rightarrow> real list" where
  "unimix_row eps self r =
     (if unimix self > 0
      then concat (map (\<lambda>l. probs_to_logits eps (unimix_probs (unimix self) (discrete self) l))
                     (chunks (discrete self) r))
      else r)"

definition mode_state_row :: "nat \<Rightarrow> real list \<Rightarrow> real list" where
  "mode_state_row k r = concat (map mode_row (chunks k r))"

definition prior_mode_row :: "real \<Rightarrow> rssm \<Rightarrow> real list \<Rightarrow> real list" where
  "prior_mode_row eps self h =
     mode_state_row (discrete self) (unimix_row eps self (forward (transition_model self) h))"

text \<open>
  A small model for concrete evaluation: constant transition and representation networks
  over two classes, and a recurrent cell that is a gated update with update gate \<open>1 / 2\<close>
  and candidate state \<open>1 / 2\<close>.
\<close>

definition example_rssm :: rssm where
  "example_rssm =
     \<lparr>recurrent_model =
        \<lparr>mlp = \<lparr>out_features = 1, forward = (\<lambda>x. [0])\<rparr>,
         rnn = (\<lambda>x h. map (\<lambda>v. (1 - 1 / 2) * (1 / 2) + 1 / 2 * v) h)\<rparr>,
      representation_model = \<lparr>out_features = 2, forward = (\<lambda>x. [0, 0])\<rparr>,
      transition_model = \<lparr>out_features = 2, forward = (\<lambda>x. [0, 0])\<rparr>,
      discrete = 2, unimix = 1 / 100\<rparr>"

section \<open>Two-hot encoding (utils/distribution.py, \<open>TwoHotEncodingDistribution\<close>)\<close>

text \<open>
  \<open>torch.linspace(start, stop, steps)\<close>: \<open>steps\<close> equally spaced values from \<open>start\<close> to
  \<open>stop\<close>; a single step gives \<open>start\<close>.
\<close>

definition linspace :: "real \<Rightarrow> real \<Rightarrow> nat \<Rightarrow> real list" where
  "linspace start stop steps =
     (if steps = 1 then [start]
      else map (\<lambda>i. start + real i * ((stop - start) / real (steps - 1))) [0..<steps])"

text \<open>\<open>torch.clip(x, lo, hi)\<close> on an integer.\<close>

definition clip :: "int \<Rightarrow> int \<Rightarrow> int \<Rightarrow> int" where
  "clip x lo hi = min (max x lo) hi"


text \<open>
  The distribution over one vector of logits: the fields \<open>__init__\<close> stores. The bins are
  \<open>torch.linspace(low, high, logits.shape[-1])\<close>.
\<close>

record two_hot =
  logits :: "real list"
  low :: int
  high :: int
  transfwd :: "real \<Rightarrow> real"
  transbwd :: "real \<Rightarrow> real"

definition bins :: "two_hot \<Rightarrow> real list" where
  "bins self = linspace (real_of_int (low self)) (real_of_int (high self)) (length (logits self))"

text \<open>
  The target that \<open>log_prob\<close> builds for one scalar \<open>x\<close> (the statements of \<open>log_prob\<close>
  up to the assignment of \<open>target\<close>). Indexing the empty tensor of bins raises; a zero
  \<open>total\<close> makes the weights \<open>0 / 0\<close>, which is not a real number.
\<close>

definition two_hot_target :: "two_hot \<Rightarrow> real \<Rightarrow> error + real list" where
  "two_hot_target self x =
     (let x = transfwd self x;
          n = length (bins self);
          below = int (length (filter (\<lambda>b. b \<le> x) (bins self))) - 1;
          above = int n - int (length (filter (\<lambda>b. b > x) (bins self)));
          below = clip below 0 (int n - 1);
          above = clip above 0 (int n - 1);
          equal = (below = above)
      in if n = 0 then Inl IndexError
         else
           let dist_to_below = (if equal then 1 else \<bar>bins self ! nat below - x\<bar>);
               dist_to_above = (if equal then 1 else \<bar>bins self ! nat above - x\<bar>);
               total = dist_to_below + dist_to_above
           in if total = 0 then Inl NonFinite
              else
                let weight_below = dist_to_above / total;
                    weight_above = dist_to_below / total
                in Inr (map2 (+) (map (\<lambda>v. v * weight_below) (one_hot below n))
                                 (map (\<lambda>v. v * weight_above) (one_hot above n))))"

text \<open>
  \<open>log_prob\<close> for one scalar target, summed over the bins:
  \<open>log_pred = logits - logsumexp(logits)\<close> and the result is the sum of \<open>target * log_pred\<close>.
\<close>

definition log_prob :: "two_hot \<Rightarrow> real \<Rightarrow> error + real" where
  "log_prob self x =
     (case two_hot_target self x of
        Inl e \<Rightarrow> Inl e
      | Inr target \<Rightarrow>
          let log_pred = map (\<lambda>l. l - ln (sum_list (map exp (logits self)))) (logits self)
          in Inr (sum_list (map2 (*) target log_pred)))"

section \<open>Theorems\<close>

subsection \<open>Actor construction\<close>

text \<open>
  C8. Actor construction raises exactly when the lower-cased distribution name is not one of
  auto, discrete, normal, tanh\_normal, trunc\_normal, or when it is discrete while
  \<open>is_continuous\<close> is true; in every other configuration the checks pass.
\<close>

theorem Actor_init_raises_iff:
  "(\<exists>e. Actor_init distribution is_continuous = Inl e) =
     (lower distribution \<notin> {''auto'', ''discrete'', ''normal'', ''tanh_normal'', ''trunc_normal''}
      \<or> (lower distribution = ''discrete'' \<and> is_continuous))"
  by (auto simp: Actor_init_def Let_def)

theorem Actor_init_raises_iff_witness:
  "(\<exists>e. Actor_init ''Discrete'' True = Inl e) \<and> \<not> (\<exists>e. Actor_init ''TRUNC_normal'' True = Inl e)"
proof -
  have a: "lower ''Discrete'' = ''discrete''" by code_simp
  have b: "lower ''TRUNC_normal'' = ''trunc_normal''" by code_simp
  show ?thesis
    using Actor_init_raises_iff [of "''Discrete''" True]
      Actor_init_raises_iff [of "''TRUNC_normal''" True]
    by (simp add: a b)
qed

lemma ema_loop_Inr:
  "list_all2 (\<lambda>p q. length p = length q) ps ts \<Longrightarrow>
   ema_loop t ps ts = Inr (map2 (\<lambda>p q. map2 (\<lambda>x y. t * x + (1 - t) * y) p q) ps ts)"
  by (induction ps ts rule: list_all2_induct) (simp_all add: ema_param_def)

lemma map2_fst_copy: "length p = length q \<Longrightarrow> map2 (\<lambda>x y. x) p q = p"
  by (induction p q rule: list_induct2) simp_all

lemma map2_hard_copy:
  "list_all2 (\<lambda>p q. length p = length q) ps ts \<Longrightarrow>
   map2 (map2 (\<lambda>x y. x)) ps ts = ps"
  by (induction ps ts rule: list_all2_induct) (simp_all add: map2_fst_copy)

subsection \<open>Target critic update\<close>

text \<open>
  C6. After one call of the update with coefficient \<open>tau\<close>, every element of every target
  parameter is \<open>tau\<close> times the online element plus \<open>1 - tau\<close> times the previous target
  element; the online parameters and \<open>tau\<close> are unchanged; with \<open>tau = 1\<close> the target
  parameters are the online parameters. The target critics are a copy of the online ones, so
  the two parameter sequences have the same shapes.
\<close>

theorem qfs_target_ema_update:
  assumes "list_all2 (\<lambda>p q. length p = length q) (qfs_unwrapped self) (qfs_target self)"
  shows "\<exists>self'. qfs_target_ema self = Inr self'
           \<and> qfs_unwrapped self' = qfs_unwrapped self \<and> tau self' = tau self
           \<and> length (qfs_target self') = length (qfs_target self)
           \<and> (\<forall>i < length (qfs_target self).
                 length (qfs_target self' ! i) = length (qfs_target self ! i)
                 \<and> (\<forall>j < length (qfs_target self ! i).
                       qfs_target self' ! i ! j =
                         tau self * qfs_unwrapped self ! i ! j
                         + (1 - tau self) * qfs_target self ! i ! j))
           \<and> (tau self = 1 \<longrightarrow> qfs_target self' = qfs_unwrapped self)"
proof -
  let ?ps = "qfs_unwrapped self" and ?ts = "qfs_target self"
  let ?new = "map2 (\<lambda>p q. map2 (\<lambda>x y. tau self * x + (1 - tau self) * y) p q) ?ps ?ts"
  have len: "length ?ps = length ?ts" and
    shp: "\<And>i. i < length ?ts \<Longrightarrow> length (?ps ! i) = length (?ts ! i)"
    using assms by (auto simp: list_all2_conv_all_nth)
  have run: "qfs_target_ema self = Inr (self\<lparr>qfs_target := ?new\<rparr>)"
    by (simp add: qfs_target_ema_def ema_loop_Inr [OF assms])
  have elems: "\<forall>i < length ?ts. length (?new ! i) = length (?ts ! i)
       \<and> (\<forall>j < length (?ts ! i). ?new ! i ! j = tau self * ?ps ! i ! j + (1 - tau self) * ?ts ! i ! j)"
  proof (intro allI impI)
    fix i assume i: "i < length ?ts"
    have l: "length (?new ! i) = length (?ts ! i)"
      using i len shp [OF i] by simp
    have e: "?new ! i ! j = tau self * ?ps ! i ! j + (1 - tau self) * ?ts ! i ! j"
      if "j < length (?ts ! i)" for j
      using that i len shp [OF i] by simp
    from l e show "length (?new ! i) = length (?ts ! i)
       \<and> (\<forall>j < length (?ts ! i). ?new ! i ! j = tau self * ?ps ! i ! j + (1 - tau self) * ?ts ! i ! j)"
      by blast
  qed
  have hard: "tau self = 1 \<longrightarrow> ?new = ?ps"
    using map2_hard_copy [OF assms] by simp
  define self' where "self' = self\<lparr>qfs_target := ?new\<rparr>"
  have t: "qfs_target self' = ?new"
    and u: "qfs_unwrapped self' = qfs_unwrapped self" and v: "tau self' = tau self"
    by (simp_all add: self'_def)
  have "qfs_target_ema self = Inr self'"
    using run by (simp add: self'_def)
  moreover have "length (qfs_target self') = length ?ts"
    using len by (simp add: t)
  moreover have "\<forall>i < length ?ts. length (qfs_target self' ! i) = length (?ts ! i)
       \<and> (\<forall>j < length (?ts ! i).
             qfs_target self' ! i ! j = tau self * ?ps ! i ! j + (1 - tau self) * ?ts ! i ! j)"
    unfolding t by (rule elems)
  moreover have "tau self = 1 \<longrightarrow> qfs_target self' = ?ps"
    unfolding t by (rule hard)
  ultimately show ?thesis
    using u v by blast
qed

theorem qfs_target_ema_update_witness:
  "list_all2 (\<lambda>p q. length p = length q) [[1, 2], [3::real]] [[0, 0], [1::real]]
   \<and> (\<exists>self'. qfs_target_ema \<lparr>qfs_unwrapped = [[1, 2], [3]], qfs_target = [[0, 0], [1]], tau = 1 / 2\<rparr>
            = Inr self' \<and> qfs_target self' ! 0 ! 1 = 1 \<and> qfs_target self' ! 1 ! 0 = 2)"
proof -
  let ?a = "\<lparr>qfs_unwrapped = [[1, 2], [3::real]], qfs_target = [[0, 0], [1::real]], tau = 1 / 2\<rparr>"
  have h: "list_all2 (\<lambda>p q. length p = length q) (qfs_unwrapped ?a) (qfs_target ?a)"
    by simp
  from qfs_target_ema_update [OF h] obtain self' where
    r: "qfs_target_ema ?a = Inr self'" and
    e: "\<forall>i < length (qfs_target ?a). length (qfs_target self' ! i) = length (qfs_target ?a ! i)
         \<and> (\<forall>j < length (qfs_target ?a ! i). qfs_target self' ! i ! j =
               tau ?a * qfs_unwrapped ?a ! i ! j + (1 - tau ?a) * qfs_target ?a ! i ! j)"
    by blast
  from e have "qfs_target self' ! 0 ! 1 = 1" by simp
  moreover from e have "qfs_target self' ! 1 ! 0 = 2" by simp
  ultimately show ?thesis using r by simp
qed

subsection \<open>Lambda values\<close>

lemma lambda_loop_append:
  "lambda_loop k inputs cs l agg lv = lv @ lambda_loop k inputs cs l agg []"
proof (induction k arbitrary: agg lv)
  case 0
  show ?case by simp
next
  case (Suc k)
  show ?case
    by (simp add: Let_def Suc.IH [of _ "lv @ [x]" for x] Suc.IH [of _ "[x]" for x])
qed

lemma lambda_loop_rev_Suc:
  "rev (lambda_loop (Suc k) inputs cs l agg []) =
     rev (lambda_loop k inputs cs l
            (map2 (+) (inputs ! k) (map2 (*) (map (\<lambda>c. c * l) (cs ! k)) agg)) [])
     @ [map2 (+) (inputs ! k) (map2 (*) (map (\<lambda>c. c * l) (cs ! k)) agg)]"
  using lambda_loop_append [of k inputs cs l _ "[x]" for x]
  by (simp add: Let_def)

lemma lambda_loop_length: "length (lambda_loop k inputs cs l agg lv) = length lv + k"
  by (induction k arbitrary: agg lv) (simp_all add: Let_def)

lemma lambda_loop_recursion:
  "t < k \<Longrightarrow>
   rev (lambda_loop k inputs cs l agg []) ! t =
     map2 (+) (inputs ! t)
       (map2 (*) (map (\<lambda>c. c * l) (cs ! t))
          (if Suc t < k then rev (lambda_loop k inputs cs l agg []) ! Suc t else agg))"
proof (induction k arbitrary: agg)
  case 0
  then show ?case by simp
next
  case (Suc k)
  let ?a = "map2 (+) (inputs ! k) (map2 (*) (map (\<lambda>c. c * l) (cs ! k)) agg)"
  let ?r = "rev (lambda_loop k inputs cs l ?a [])"
  have len: "length ?r = k" by (simp add: lambda_loop_length)
  have split: "rev (lambda_loop (Suc k) inputs cs l agg []) = ?r @ [?a]"
    by (rule lambda_loop_rev_Suc)
  show ?case
  proof (cases "t < k")
    case True
    have next_elem: "(?r @ [?a]) ! Suc t = (if Suc t < k then ?r ! Suc t else ?a)"
      using True len by (auto simp: nth_append)
    have "(?r @ [?a]) ! t = ?r ! t"
      using True len by (simp add: nth_append)
    also have "\<dots> = map2 (+) (inputs ! t)
       (map2 (*) (map (\<lambda>c. c * l) (cs ! t)) (if Suc t < k then ?r ! Suc t else ?a))"
      by (rule Suc.IH [OF True])
    finally show ?thesis
      using True unfolding split next_elem by simp
  next
    case False
    with Suc.prems have tk: "t = k" by simp
    show ?thesis
      unfolding split using len by (simp add: tk nth_append)
  qed
qed


lemma lambda_loop_slices:
  "length agg = B \<Longrightarrow> \<forall>i < k. length (inputs ! i) = B \<and> length (cs ! i) = B \<Longrightarrow>
   x \<in> set (lambda_loop k inputs cs l agg lv) \<Longrightarrow> x \<in> set lv \<or> length x = B"
proof (induction k arbitrary: agg lv)
  case 0
  then show ?case by simp
next
  case (Suc k)
  let ?a = "map2 (+) (inputs ! k) (map2 (*) (map (\<lambda>c. c * l) (cs ! k)) agg)"
  have la: "length ?a = B" using Suc.prems(1,2) by simp
  have "\<forall>i < k. length (inputs ! i) = B \<and> length (cs ! i) = B" using Suc.prems(2) by simp
  moreover have "x \<in> set (lambda_loop k inputs cs l ?a (lv @ [?a]))"
    using Suc.prems(3) by (simp add: Let_def)
  ultimately have "x \<in> set (lv @ [?a]) \<or> length x = B"
    using Suc.IH [OF la] by blast
  then show ?case using la by auto
qed

lemma next_val_nth:
  "length vs = H \<Longrightarrow> t < H \<Longrightarrow> (tl vs @ [b]) ! t = (if Suc t < H then vs ! Suc t else b)"
  by (cases vs) (auto simp: nth_append)

lemma two_step_arith:
  fixes g :: real
  shows "g = i + c * l * x \<Longrightarrow> i = r + c * n * (1 - l) \<Longrightarrow> g = r + c * ((1 - l) * n + l * x)"
  by (simp add: algebra_simps)

text \<open>
  C2. For a horizon \<open>H \<ge> 1\<close> and rewards, values and continues of time length \<open>H\<close>,
  \<open>compute_lambda_values\<close> returns the sequence \<open>G\<close> of the backward recursion
  \<open>G t = r t + c t * ((1 - lambda) * V (t + 1) + lambda * G (t + 1))\<close>, where \<open>V H\<close> and
  \<open>G H\<close> are the bootstrap value; without a bootstrap, the bootstrap value is zero.
\<close>

theorem compute_lambda_values_recursion:
  assumes H: "0 < H"
    and r: "same_shape H B rewards" and v: "same_shape H B values"
    and c: "same_shape H B continues" and b: "length b = B"
  shows "\<exists>G. compute_lambda_values rewards values continues (Some b) H lmbda = Inr G
           \<and> same_shape H B G
           \<and> (\<forall>t < H. \<forall>e < B.
                 G ! t ! e =
                   rewards ! t ! e
                   + continues ! t ! e
                     * ((1 - lmbda) * (if Suc t < H then values ! Suc t ! e else b ! e)
                        + lmbda * (if Suc t < H then G ! Suc t ! e else b ! e)))
           \<and> compute_lambda_values rewards values continues None H lmbda =
               compute_lambda_values rewards values continues (Some (replicate B 0)) H lmbda"
proof -
  let ?nv = "tl values @ [b]"
  let ?inputs = "map2 (map2 (+)) rewards
                   (map (map (\<lambda>x. x * (1 - lmbda))) (map2 (map2 (*)) continues ?nv))"
  let ?G = "rev (lambda_loop H ?inputs continues lmbda b [])"
  have lr: "length rewards = H" and lv: "length values = H" and lc: "length continues = H"
    using r v c by (simp_all add: same_shape_def)
  have sr: "length (rewards ! t) = B" and sv: "length (values ! t) = B"
    and sc: "length (continues ! t) = B" if "t < H" for t
    using that r v c by (simp_all add: same_shape_def)
  have B_eq: "(case values of [] \<Rightarrow> 0 | x # _ \<Rightarrow> length x) = B"
    using H lv sv [of 0] by (cases "values") auto
  have lnv: "length ?nv = H" using lv H by simp
  have snv: "length (?nv ! t) = B" if "t < H" for t
    using that next_val_nth [OF lv that, of b] sv [of "Suc t"] b by simp
  have inputs_nth: "?inputs ! t =
      map2 (+) (rewards ! t) (map (\<lambda>x. x * (1 - lmbda)) (map2 (*) (continues ! t) (?nv ! t)))"
    if "t < H" for t
    using that lr lc lnv by simp
  have sin: "length (?inputs ! t) = B" if "t < H" for t
    using that inputs_nth [OF that] sr [OF that] sc [OF that] snv [OF that] by simp
  have run: "compute_lambda_values rewards values continues (Some b) H lmbda = Inr ?G"
    using H r v c b lr by (simp add: compute_lambda_values_def B_eq Let_def)
  have lG: "length ?G = H" by (simp add: lambda_loop_length)
  have sG: "length (?G ! t) = B" if "t < H" for t
  proof -
    have "?G ! t \<in> set (lambda_loop H ?inputs continues lmbda b [])"
      using that lG by (metis nth_mem set_rev)
    then show ?thesis
      using lambda_loop_slices [of b B H ?inputs continues "?G ! t" lmbda "[]"] b sin sc
      by auto
  qed
  have shape: "same_shape H B ?G"
    unfolding same_shape_def using lG sG by (auto simp: in_set_conv_nth simp del: set_rev)
  have rec: "?G ! t ! e =
       rewards ! t ! e
       + continues ! t ! e
         * ((1 - lmbda) * (if Suc t < H then values ! Suc t ! e else b ! e)
            + lmbda * (if Suc t < H then ?G ! Suc t ! e else b ! e))"
    if t: "t < H" and e: "e < B" for t e
  proof -
    let ?X = "if Suc t < H then ?G ! Suc t else b"
    have lX: "length ?X = B" using sG [of "Suc t"] b by simp
    have "?G ! t = map2 (+) (?inputs ! t) (map2 (*) (map (\<lambda>c. c * lmbda) (continues ! t)) ?X)"
      by (rule lambda_loop_recursion [OF t])
    then have 1: "?G ! t ! e = ?inputs ! t ! e + continues ! t ! e * lmbda * ?X ! e"
      using e lX sin [OF t] sc [OF t] by simp
    have 2: "?inputs ! t ! e =
        rewards ! t ! e + continues ! t ! e * (?nv ! t ! e) * (1 - lmbda)"
      using e inputs_nth [OF t] sr [OF t] sc [OF t] snv [OF t] by simp
    have 3: "?nv ! t ! e = (if Suc t < H then values ! Suc t ! e else b ! e)"
      using next_val_nth [OF lv t, of b] by simp
    have 4: "?X ! e = (if Suc t < H then ?G ! Suc t ! e else b ! e)"
      by simp
    have "?G ! t ! e =
        rewards ! t ! e + continues ! t ! e * ((1 - lmbda) * (?nv ! t ! e) + lmbda * ?X ! e)"
      using two_step_arith [OF 1 2] .
    then show ?thesis
      by (simp only: 3 4)
  qed
  have none: "compute_lambda_values rewards values continues None H lmbda =
      compute_lambda_values rewards values continues (Some (replicate B 0)) H lmbda"
    by (simp add: compute_lambda_values_def B_eq)
  from run shape rec none show ?thesis by blast
qed

theorem compute_lambda_values_recursion_witness:
  "0 < (2::nat) \<and> same_shape 2 1 [[1], [2]] \<and> same_shape 2 1 [[3], [4]]
   \<and> same_shape 2 1 [[1], [1 / 2]] \<and> length [10::real] = 1
   \<and> (\<exists>G. compute_lambda_values [[1], [2]] [[3], [4]] [[1], [1 / 2]] (Some [10]) 2 (1 / 2) = Inr G
          \<and> same_shape 2 1 G)"
proof -
  have h: "0 < (2::nat)" by simp
  have r: "same_shape 2 1 [[1], [2]]" and v: "same_shape 2 1 [[3], [4]]"
    and c: "same_shape 2 1 [[1], [1 / 2]]"
    by (simp_all add: same_shape_def)
  have b: "length [10::real] = 1" by simp
  from compute_lambda_values_recursion [OF h r v c b, of "1 / 2"] obtain G where
    "compute_lambda_values [[1], [2]] [[3], [4]] [[1], [1 / 2]] (Some [10]) 2 (1 / 2) = Inr G"
    "same_shape 2 1 G"
    by blast
  then show ?thesis using h r v c b by blast
qed

text \<open>
  C9. For a horizon of one step and a single environment, \<open>compute_lambda_values\<close> returns
  exactly one value, \<open>r0 + c0 * b\<close> with \<open>b\<close> the bootstrap value, whatever lambda is.
\<close>

theorem compute_lambda_values_one_step:
  "compute_lambda_values [[r0]] [[v0]] [[c0]] (Some [b]) 1 lmbda = Inr [[r0 + c0 * b]]"
  by (simp add: compute_lambda_values_def same_shape_def algebra_simps)

theorem compute_lambda_values_one_step_witness:
  "compute_lambda_values [[1]] [[5]] [[1 / 2]] (Some [4]) 1 (19 / 20) = Inr [[3]]"
  using compute_lambda_values_one_step [of 1 5 "1 / 2" 4 "19 / 20"] by simp

subsection \<open>Two-hot encoding\<close>

lemma length_linspace [simp]: "length (linspace a b n) = n"
  by (simp add: linspace_def)

lemma length_bins [simp]: "length (bins self) = length (logits self)"
  by (simp add: bins_def)

lemma length_one_hot [simp]: "length (one_hot i n) = n"
  by (simp add: one_hot_def)

lemma linspace_nth:
  "i < n \<Longrightarrow> linspace a b n ! i = a + real i * ((b - a) / real (n - 1))"
  by (auto simp: linspace_def)

lemma sum_list_one_hot: "0 \<le> i \<Longrightarrow> i < int n \<Longrightarrow> sum_list (one_hot i n) = 1"
proof -
  assume "0 \<le> i" and "i < int n"
  then have "i = int (nat i)" and "nat i < n"
    by simp_all
  then obtain k where k: "i = int k" "k < n"
    by blast
  have "sum_list (one_hot i n) = (\<Sum>j \<in> {0..<n}. if j = k then 1 else 0)"
    by (simp add: one_hot_def k interv_sum_list_conv_sum_set_nat)
  also have "\<dots> = 1"
    using k by simp
  finally show ?thesis .
qed

lemma one_hot_nth: "j < n \<Longrightarrow> one_hot i n ! j = (if int j = i then 1 else 0)"
  by (simp add: one_hot_def)

lemma sum_list_map2_add:
  fixes xs :: "real list"
  shows "length xs = length ys \<Longrightarrow> sum_list (map2 (+) xs ys) = sum_list xs + sum_list ys"
  by (induction xs ys rule: list_induct2) simp_all

lemma sum_list_scale:
  fixes xs :: "real list"
  shows "sum_list (map (\<lambda>v. v * w) xs) = sum_list xs * w"
  by (induction xs) (simp_all add: algebra_simps)

lemma count_split:
  "length (filter (\<lambda>b. b \<le> x) (bs :: real list)) + length (filter (\<lambda>b. b > x) bs) = length bs"
  by (induction bs) auto

lemma filter_all: "\<forall>b \<in> set bs. P b \<Longrightarrow> length (filter P bs) = length bs"
  by (induction bs) auto


lemma clip_bounds: "lo \<le> hi \<Longrightarrow> lo \<le> clip x lo hi \<and> clip x lo hi \<le> hi"
  by (simp add: clip_def)

lemma target_props:
  assumes i: "0 \<le> i" "i < int n" and j: "0 \<le> j" "j < int n"
    and w: "0 \<le> wb" "0 \<le> wa" "wb + wa = 1"
  shows "length (map2 (+) (map (\<lambda>v. v * wb) (one_hot i n)) (map (\<lambda>v. v * wa) (one_hot j n))) = n"
    and "\<forall>v \<in> set (map2 (+) (map (\<lambda>v. v * wb) (one_hot i n)) (map (\<lambda>v. v * wa) (one_hot j n))). 0 \<le> v"
    and "sum_list (map2 (+) (map (\<lambda>v. v * wb) (one_hot i n)) (map (\<lambda>v. v * wa) (one_hot j n))) = 1"
proof -
  let ?t = "map2 (+) (map (\<lambda>v. v * wb) (one_hot i n)) (map (\<lambda>v. v * wa) (one_hot j n))"
  show len: "length ?t = n" by simp
  show "\<forall>v \<in> set ?t. 0 \<le> v"
  proof
    fix v assume "v \<in> set ?t"
    then have "\<exists>k < length ?t. ?t ! k = v"
      by (simp only: in_set_conv_nth)
    then obtain k where k: "k < n" and v: "v = ?t ! k"
      using len by auto
    have "?t ! k = one_hot i n ! k * wb + one_hot j n ! k * wa"
      using k by simp
    then show "0 \<le> v"
      using k w by (simp add: v one_hot_nth)
  qed
  show "sum_list ?t = 1"
    using i j w by (simp add: sum_list_map2_add sum_list_scale sum_list_one_hot)
qed

lemma linspace_gap:
  assumes k: "1 \<le> k" "k < n"
    and eq: "linspace a b n ! (k - 1) = linspace a b n ! k"
  shows "b = a"
proof -
  define s where "s = (b - a) / real (n - 1)"
  have n: "real (n - 1) > 0" using k by simp
  have rk: "real k = real (k - 1) + 1" using k by simp
  have "a + real (k - 1) * s = a + real k * s"
    using eq k by (simp add: linspace_nth s_def)
  then have "a + real (k - 1) * s = a + (real (k - 1) + 1) * s"
    by (simp only: rk)
  then have "s = 0"
    by (simp add: distrib_right)
  then show ?thesis using n by (simp add: s_def)
qed

lemma linspace_const: "i < n \<Longrightarrow> linspace a a n ! i = a"
  by (simp add: linspace_nth)

lemma total_nonzero:
  assumes k: "1 \<le> k" "k < n"
    and cnt: "k = length (filter (\<lambda>v. v \<le> x) (linspace a b n))"
  shows "\<bar>linspace a b n ! (k - 1) - x\<bar> + \<bar>linspace a b n ! k - x\<bar> \<noteq> 0"
proof
  assume "\<bar>linspace a b n ! (k - 1) - x\<bar> + \<bar>linspace a b n ! k - x\<bar> = 0"
  then have e1: "linspace a b n ! (k - 1) = x" and e2: "linspace a b n ! k = x"
    using abs_ge_zero [of "linspace a b n ! (k - 1) - x"] abs_ge_zero [of "linspace a b n ! k - x"]
    by simp_all
  then have ba: "b = a" using linspace_gap [OF k, of a b] by simp
  have "x = a" using e2 k linspace_const [of k n a] by (simp add: ba)
  have "v \<le> x" if "v \<in> set (linspace a b n)" for v
  proof -
    from that have "\<exists>i < length (linspace a b n). linspace a b n ! i = v"
      by (simp only: in_set_conv_nth)
    then obtain i where "i < n" "linspace a a n ! i = v"
      by (auto simp: ba)
    then show ?thesis
      using linspace_const [of i n a] \<open>x = a\<close> by simp
  qed
  then have "\<forall>v \<in> set (linspace a b n). v \<le> x"
    by blast
  then have "length (filter (\<lambda>v. v \<le> x) (linspace a b n)) = n"
    using filter_all [of "linspace a b n" "\<lambda>v. v \<le> x"] by simp
  then show False using cnt k by simp
qed


lemma two_hot_target_cases:
  fixes self :: two_hot and x :: real
  assumes n: "logits self \<noteq> []"
  defines "bs \<equiv> bins self"
    and "xt \<equiv> transfwd self x"
    and "N \<equiv> length (logits self)"
  defines "c \<equiv> length (filter (\<lambda>b. b \<le> xt) bs)"
  defines "blw \<equiv> clip (int c - 1) 0 (int N - 1)"
    and "abv \<equiv> clip (int c) 0 (int N - 1)"
  shows "0 \<le> blw \<and> blw < int N \<and> 0 \<le> abv \<and> abv < int N"
    and "blw = abv \<Longrightarrow>
         two_hot_target self x =
           Inr (map2 (+) (map (\<lambda>v. v * (1 / 2)) (one_hot blw N))
                         (map (\<lambda>v. v * (1 / 2)) (one_hot abv N)))"
    and "blw \<noteq> abv \<Longrightarrow>
         1 \<le> c \<and> c < N \<and> blw = int c - 1 \<and> abv = int c
         \<and> \<bar>bs ! (c - 1) - xt\<bar> + \<bar>bs ! c - xt\<bar> \<noteq> 0
         \<and> two_hot_target self x =
           Inr (map2 (+)
                  (map (\<lambda>v. v * (\<bar>bs ! c - xt\<bar> / (\<bar>bs ! (c - 1) - xt\<bar> + \<bar>bs ! c - xt\<bar>)))
                     (one_hot blw N))
                  (map (\<lambda>v. v * (\<bar>bs ! (c - 1) - xt\<bar> / (\<bar>bs ! (c - 1) - xt\<bar> + \<bar>bs ! c - xt\<bar>)))
                     (one_hot abv N)))"
proof -
  have N: "0 < N" using n by (simp add: N_def)
  have len: "length bs = N" by (simp add: bs_def N_def)
  have split: "int N - int (length (filter (\<lambda>b. b > xt) bs)) = int c"
    using count_split [of xt bs] len by (simp add: c_def)
  have cN: "c \<le> N" using len by (simp add: c_def) (metis length_filter_le)
  show rng: "0 \<le> blw \<and> blw < int N \<and> 0 \<le> abv \<and> abv < int N"
    using N by (auto simp: blw_def abv_def clip_def min_def max_def)
  have f1: "length (bins self) = N" by (simp add: N_def)
  have f2: "clip (int (length (filter (\<lambda>b. b \<le> transfwd self x) (bins self))) - 1) 0 (int N - 1) = blw"
    by (simp add: blw_def c_def bs_def xt_def)
  have f3: "clip (int N - int (length (filter (\<lambda>b. b > transfwd self x) (bins self)))) 0 (int N - 1)
      = abv"
    using split by (simp add: abv_def bs_def xt_def)
  have f4: "(N = 0) = False" using N by simp
  have unfold: "two_hot_target self x =
      (if (if blw = abv then 1 else \<bar>bs ! nat blw - xt\<bar>)
          + (if blw = abv then 1 else \<bar>bs ! nat abv - xt\<bar>) = 0
       then Inl NonFinite
       else Inr (map2 (+)
              (map (\<lambda>v. v * ((if blw = abv then 1 else \<bar>bs ! nat abv - xt\<bar>)
                     / ((if blw = abv then 1 else \<bar>bs ! nat blw - xt\<bar>)
                        + (if blw = abv then 1 else \<bar>bs ! nat abv - xt\<bar>))))
                 (one_hot blw N))
              (map (\<lambda>v. v * ((if blw = abv then 1 else \<bar>bs ! nat blw - xt\<bar>)
                     / ((if blw = abv then 1 else \<bar>bs ! nat blw - xt\<bar>)
                        + (if blw = abv then 1 else \<bar>bs ! nat abv - xt\<bar>))))
                 (one_hot abv N))))"
    unfolding bs_def xt_def
    by (simp only: two_hot_target_def Let_def f1 f2 f3 f4 if_False)
  show "two_hot_target self x =
           Inr (map2 (+) (map (\<lambda>v. v * (1 / 2)) (one_hot blw N))
                         (map (\<lambda>v. v * (1 / 2)) (one_hot abv N)))"
    if "blw = abv"
    using that by (simp add: unfold)
  show "1 \<le> c \<and> c < N \<and> blw = int c - 1 \<and> abv = int c
         \<and> \<bar>bs ! (c - 1) - xt\<bar> + \<bar>bs ! c - xt\<bar> \<noteq> 0
         \<and> two_hot_target self x =
           Inr (map2 (+)
                  (map (\<lambda>v. v * (\<bar>bs ! c - xt\<bar> / (\<bar>bs ! (c - 1) - xt\<bar> + \<bar>bs ! c - xt\<bar>)))
                     (one_hot blw N))
                  (map (\<lambda>v. v * (\<bar>bs ! (c - 1) - xt\<bar> / (\<bar>bs ! (c - 1) - xt\<bar> + \<bar>bs ! c - xt\<bar>)))
                     (one_hot abv N)))"
    if ne: "blw \<noteq> abv"
  proof -
    have c1: "1 \<le> c" and c2: "c < N"
      using ne cN N by (auto simp: blw_def abv_def clip_def split: if_splits)
    have b: "blw = int c - 1" and a: "abv = int c"
      using c1 c2 by (simp_all add: blw_def abv_def clip_def)
    have nb: "nat blw = c - 1" and na: "nat abv = c"
      using c1 by (simp_all add: a b)
    have tot: "\<bar>bs ! (c - 1) - xt\<bar> + \<bar>bs ! c - xt\<bar> \<noteq> 0"
    proof -
      have c2': "c < length (logits self)" using c2 by (simp add: N_def)
      have cnt: "c = length (filter (\<lambda>v. v \<le> xt)
          (linspace (real_of_int (low self)) (real_of_int (high self)) (length (logits self))))"
        by (simp add: c_def bs_def bins_def)
      from total_nonzero [OF c1 c2' cnt] show ?thesis
        by (simp add: bs_def bins_def)
    qed
    show ?thesis
      using c1 c2 a [symmetric] b [symmetric] tot ne by (simp add: unfold nb na)
  qed
qed


text \<open>
  C10. For every scalar input, the two-hot target built inside \<open>log_prob\<close> is a probability
  distribution over the bins: it has one entry per bin, every entry is non-negative and the
  entries sum to one, also when both clipped indices coincide. The distribution has at least
  one bin.
\<close>

theorem two_hot_target_distribution:
  assumes n: "logits self \<noteq> []"
  shows "\<exists>target. two_hot_target self x = Inr target
           \<and> length target = length (logits self)
           \<and> (\<forall>v \<in> set target. 0 \<le> v)
           \<and> sum_list target = 1"
proof -
  define N where "N = length (logits self)"
  define c where "c = length (filter (\<lambda>b. b \<le> transfwd self x) (bins self))"
  define blw where "blw = clip (int c - 1) 0 (int N - 1)"
  define abv where "abv = clip (int c) 0 (int N - 1)"
  note cases = two_hot_target_cases [OF n, of x, folded N_def c_def, folded blw_def abv_def]
  have rng: "0 \<le> blw" "blw < int N" "0 \<le> abv" "abv < int N"
    using cases(1) by simp_all
  show ?thesis
  proof (cases "blw = abv")
    case True
    have "two_hot_target self x =
           Inr (map2 (+) (map (\<lambda>v. v * (1 / 2)) (one_hot blw N))
                         (map (\<lambda>v. v * (1 / 2)) (one_hot abv N)))"
      by (rule cases(2) [OF True])
    moreover have "(0::real) \<le> 1 / 2" and "(1::real) / 2 + 1 / 2 = 1" by simp_all
    ultimately show ?thesis
      using target_props [OF rng, of "1 / 2" "1 / 2"] by (simp add: N_def)
  next
    case False
    let ?db = "\<bar>bins self ! (c - 1) - transfwd self x\<bar>"
    let ?da = "\<bar>bins self ! c - transfwd self x\<bar>"
    from cases(3) [OF False]
    have tot: "?db + ?da \<noteq> 0"
      and run: "two_hot_target self x =
           Inr (map2 (+) (map (\<lambda>v. v * (?da / (?db + ?da))) (one_hot blw N))
                         (map (\<lambda>v. v * (?db / (?db + ?da))) (one_hot abv N)))"
      by simp_all
    have pos: "0 < ?db + ?da" using tot by linarith
    have w: "0 \<le> ?da / (?db + ?da)" "0 \<le> ?db / (?db + ?da)"
      "?da / (?db + ?da) + ?db / (?db + ?da) = 1"
      using pos by (simp_all add: add_divide_distrib [symmetric] add.commute)
    show ?thesis
      using target_props [OF rng w] run by (simp add: N_def)
  qed
qed


lemma count_prefix:
  assumes "m \<le> length xs" and "\<And>i. i < length xs \<Longrightarrow> P (xs ! i) = (i < m)"
  shows "length (filter P xs) = m"
proof -
  have "{i. i < length xs \<and> P (xs ! i)} = {..<m}"
    using assms by auto
  then show ?thesis
    by (simp add: length_filter_conv_card)
qed

lemma linspace_mono:
  assumes "a < b" and "i < j" and "j < n"
  shows "linspace a b n ! i < linspace a b n ! j"
proof -
  have n: "0 < real (n - 1)" using assms by simp
  have pos: "0 < (b - a) / real (n - 1)" using assms(1) n by simp
  have "real i < real j" using assms(2) by simp
  then have "real i * ((b - a) / real (n - 1)) < real j * ((b - a) / real (n - 1))"
    using pos by (rule mult_strict_right_mono)
  then show ?thesis using assms by (simp add: linspace_nth)
qed

lemma linspace_mono_le:
  assumes "a < b" and "i \<le> j" and "j < n"
  shows "linspace a b n ! i \<le> linspace a b n ! j"
  using linspace_mono [OF assms(1), of i j n] assms(2,3) by (cases "i = j") simp_all

lemma linspace_first: "0 < n \<Longrightarrow> linspace a b n ! 0 = a"
  by (simp add: linspace_nth)

lemma linspace_last: "0 < n \<Longrightarrow> linspace a b n ! (n - 1) \<le> max a b"
  by (cases "n = 1") (simp_all add: linspace_nth)

lemma count_between:
  assumes ab: "a < b" and k: "k < n"
    and lo: "linspace a b n ! k \<le> x"
    and hi: "Suc k < n \<Longrightarrow> x < linspace a b n ! Suc k"
  shows "length (filter (\<lambda>v. v \<le> x) (linspace a b n)) = Suc k"
proof (rule count_prefix)
  show "Suc k \<le> length (linspace a b n)" using k by simp
next
  fix i assume "i < length (linspace a b n)"
  then have i: "i < n" by simp
  show "(linspace a b n ! i \<le> x) = (i < Suc k)"
  proof (cases "i \<le> k")
    case True
    then show ?thesis
      using linspace_mono_le [OF ab True k] lo by simp
  next
    case False
    then have sk: "Suc k \<le> i" by simp
    with i have "Suc k < n \<or> Suc k = i" by auto
    have "x < linspace a b n ! Suc k" using hi sk i by simp
    also have "\<dots> \<le> linspace a b n ! i" by (rule linspace_mono_le [OF ab sk i])
    finally show ?thesis using False by simp
  qed
qed

lemma count_below_low:
  assumes ab: "a < b" and x: "x < a"
  shows "length (filter (\<lambda>v. v \<le> x) (linspace a b n)) = 0"
proof (rule count_prefix)
  show "0 \<le> length (linspace a b n)" by simp
next
  fix i assume "i < length (linspace a b n)"
  then have i: "i < n" by simp
  have "a = linspace a b n ! 0" using i by (simp add: linspace_first)
  also have "\<dots> \<le> linspace a b n ! i" by (rule linspace_mono_le [OF ab _ i]) simp
  finally show "(linspace a b n ! i \<le> x) = (i < 0)" using x by simp
qed

lemma count_above_high:
  assumes ab: "a < b" and x: "b < x"
  shows "length (filter (\<lambda>v. v \<le> x) (linspace a b n)) = n"
proof (rule count_prefix [where m = n and xs = "linspace a b n", simplified])
  fix i assume i: "i < n"
  have "linspace a b n ! i \<le> linspace a b n ! (n - 1)"
    by (rule linspace_mono_le [OF ab]) (use i in simp_all)
  also have "\<dots> \<le> max a b" using i linspace_last [of n a b] by simp
  finally show "linspace a b n ! i \<le> x" using ab x by simp
qed

lemma map2_half_half:
  fixes xs :: "real list"
  shows "map2 (+) (map (\<lambda>v. v * (1 / 2)) xs) (map (\<lambda>v. v * (1 / 2)) xs) = xs"
  by (induction xs) simp_all

lemma map2_one_zero:
  fixes xs :: "real list"
  shows "length xs = length ys \<Longrightarrow> map2 (+) (map (\<lambda>v. v * 1) xs) (map (\<lambda>v. v * 0) ys) = xs"
  by (induction xs ys rule: list_induct2) simp_all


lemma two_hot_on_bin:
  assumes lh: "low self < high self" and k: "k < length (logits self)"
    and x: "transfwd self x = bins self ! k"
  shows "two_hot_target self x = Inr (one_hot (int k) (length (logits self)))"
proof -
  define N where "N = length (logits self)"
  define c where "c = length (filter (\<lambda>b. b \<le> transfwd self x) (bins self))"
  define blw where "blw = clip (int c - 1) 0 (int N - 1)"
  define abv where "abv = clip (int c) 0 (int N - 1)"
  have n: "logits self \<noteq> []" using k by auto
  note cases = two_hot_target_cases [OF n, of x, folded N_def c_def, folded blw_def abv_def]
  have ab: "real_of_int (low self) < real_of_int (high self)" using lh by simp
  have kN: "k < N" using k by (simp add: N_def)
  have c: "c = Suc k"
    unfolding c_def bins_def x
    by (rule count_between [OF ab k]) (simp_all add: linspace_mono [OF ab])
  have blw: "blw = int k" using kN by (simp add: blw_def c clip_def)
  show ?thesis
  proof (cases "Suc k < N")
    case True
    then have abv: "abv = int (Suc k)" by (simp add: abv_def c clip_def)
    have ne: "blw \<noteq> abv" by (simp add: blw abv)
    define db where "db = \<bar>bins self ! (c - 1) - transfwd self x\<bar>"
    define da where "da = \<bar>bins self ! c - transfwd self x\<bar>"
    from cases(3) [OF ne, folded db_def da_def]
    have tot: "db + da \<noteq> 0"
      and run: "two_hot_target self x =
           Inr (map2 (+) (map (\<lambda>v. v * (da / (db + da))) (one_hot blw N))
                         (map (\<lambda>v. v * (db / (db + da))) (one_hot abv N)))"
      by simp_all
    have db: "db = 0" by (simp add: db_def c x)
    have da: "da / (db + da) = 1" and db': "db / (db + da) = 0" using tot by (simp_all add: db)
    have "two_hot_target self x =
           Inr (map2 (+) (map (\<lambda>v. v * 1) (one_hot blw N)) (map (\<lambda>v. v * 0) (one_hot abv N)))"
      using run by (simp only: da db')
    then show ?thesis
      by (simp only: map2_one_zero length_one_hot blw N_def)
  next
    case False
    with kN have "Suc k = N" by simp
    then have abv: "abv = int k" by (auto simp: abv_def c clip_def)
    have "two_hot_target self x =
           Inr (map2 (+) (map (\<lambda>v. v * (1 / 2)) (one_hot blw N))
                         (map (\<lambda>v. v * (1 / 2)) (one_hot abv N)))"
      by (rule cases(2)) (simp add: blw abv)
    then show ?thesis
      by (simp only: blw abv map2_half_half N_def)
  qed
qed

lemma two_hot_outside:
  assumes lh: "low self < high self" and n: "logits self \<noteq> []"
  shows "transfwd self x < real_of_int (low self) \<Longrightarrow>
           two_hot_target self x = Inr (one_hot 0 (length (logits self)))"
    and "real_of_int (high self) < transfwd self x \<Longrightarrow>
           two_hot_target self x = Inr (one_hot (int (length (logits self)) - 1) (length (logits self)))"
proof -
  define N where "N = length (logits self)"
  define c where "c = length (filter (\<lambda>b. b \<le> transfwd self x) (bins self))"
  define blw where "blw = clip (int c - 1) 0 (int N - 1)"
  define abv where "abv = clip (int c) 0 (int N - 1)"
  note cases = two_hot_target_cases [OF n, of x, folded N_def c_def, folded blw_def abv_def]
  have ab: "real_of_int (low self) < real_of_int (high self)" using lh by simp
  have N: "0 < N" using n by (simp add: N_def)
  show "two_hot_target self x = Inr (one_hot 0 (length (logits self)))"
    if "transfwd self x < real_of_int (low self)"
  proof -
    have c: "c = 0"
      unfolding c_def bins_def by (rule count_below_low [OF ab that])
    have b: "blw = 0" and a: "abv = 0"
      using N by (simp_all add: blw_def abv_def c clip_def)
    have "two_hot_target self x =
           Inr (map2 (+) (map (\<lambda>v. v * (1 / 2)) (one_hot blw N))
                         (map (\<lambda>v. v * (1 / 2)) (one_hot abv N)))"
      by (rule cases(2)) (simp add: a b)
    then show ?thesis
      by (simp only: a b map2_half_half N_def)
  qed
  show "two_hot_target self x = Inr (one_hot (int (length (logits self)) - 1) (length (logits self)))"
    if "real_of_int (high self) < transfwd self x"
  proof -
    have c: "c = N"
      unfolding c_def bins_def N_def by (rule count_above_high [OF ab that])
    have b: "blw = int N - 1" and a: "abv = int N - 1"
      using N by (simp_all add: blw_def abv_def c clip_def)
    have "two_hot_target self x =
           Inr (map2 (+) (map (\<lambda>v. v * (1 / 2)) (one_hot blw N))
                         (map (\<lambda>v. v * (1 / 2)) (one_hot abv N)))"
      by (rule cases(2)) (simp add: a b)
    then show ?thesis
      by (simp only: a b map2_half_half N_def)
  qed
qed

lemma two_hot_midpoint:
  assumes lh: "low self < high self" and k: "Suc k < length (logits self)"
    and x: "transfwd self x = (bins self ! k + bins self ! Suc k) / 2"
  shows "two_hot_target self x =
           Inr (map2 (+) (map (\<lambda>v. v * (1 / 2)) (one_hot (int k) (length (logits self))))
                         (map (\<lambda>v. v * (1 / 2)) (one_hot (int (Suc k)) (length (logits self)))))"
proof -
  define N where "N = length (logits self)"
  define c where "c = length (filter (\<lambda>b. b \<le> transfwd self x) (bins self))"
  define blw where "blw = clip (int c - 1) 0 (int N - 1)"
  define abv where "abv = clip (int c) 0 (int N - 1)"
  have n: "logits self \<noteq> []" using k by auto
  note cases = two_hot_target_cases [OF n, of x, folded N_def c_def, folded blw_def abv_def]
  have ab: "real_of_int (low self) < real_of_int (high self)" using lh by simp
  have kN: "Suc k < N" using k by (simp add: N_def)
  have lt: "bins self ! k < bins self ! Suc k"
    unfolding bins_def by (rule linspace_mono [OF ab _ k]) simp
  have xl: "bins self ! k < transfwd self x" and xh: "transfwd self x < bins self ! Suc k"
    using lt by (simp_all add: x)
  have c: "c = Suc k"
    unfolding c_def bins_def
    by (rule count_between [OF ab]) (use k xl xh in \<open>simp_all add: bins_def\<close>)
  have blw: "blw = int k" and abv: "abv = int (Suc k)"
    using kN by (simp_all add: blw_def abv_def c clip_def)
  have ne: "blw \<noteq> abv" by (simp add: blw abv)
  define db where "db = \<bar>bins self ! (c - 1) - transfwd self x\<bar>"
  define da where "da = \<bar>bins self ! c - transfwd self x\<bar>"
  from cases(3) [OF ne, folded db_def da_def]
  have tot: "db + da \<noteq> 0"
    and run: "two_hot_target self x =
         Inr (map2 (+) (map (\<lambda>v. v * (da / (db + da))) (one_hot blw N))
                       (map (\<lambda>v. v * (db / (db + da))) (one_hot abv N)))"
    by simp_all
  have "db = (bins self ! Suc k - bins self ! k) / 2"
    using lt by (simp add: db_def c x abs_if field_simps)
  moreover have "da = (bins self ! Suc k - bins self ! k) / 2"
    using lt by (simp add: da_def c x abs_if field_simps)
  ultimately have eq: "db = da" by simp
  have da: "da \<noteq> 0" using tot by (simp add: eq)
  have w: "da / (da + da) = 1 / 2" using da by (simp add: field_simps)
  show ?thesis
    using run unfolding eq w by (simp only: blw abv N_def)
qed


text \<open>
  C5. With \<open>low < high\<close>: a transformed target equal to a bin value puts the whole weight on
  that bin; a transformed target below \<open>low\<close> puts it on the first bin, one above \<open>high\<close>
  on the last bin; a transformed target midway between two adjacent bins gives each of the
  two bins the weight one half.
\<close>

theorem two_hot_target_special_cases:
  assumes lh: "low self < high self" and n: "logits self \<noteq> []"
  shows "(k < length (logits self) \<and> transfwd self x = bins self ! k \<longrightarrow>
            two_hot_target self x = Inr (one_hot (int k) (length (logits self))))
       \<and> (transfwd self x < real_of_int (low self) \<longrightarrow>
            two_hot_target self x = Inr (one_hot 0 (length (logits self))))
       \<and> (real_of_int (high self) < transfwd self x \<longrightarrow>
            two_hot_target self x =
              Inr (one_hot (int (length (logits self)) - 1) (length (logits self))))
       \<and> (Suc k < length (logits self)
            \<and> transfwd self x = (bins self ! k + bins self ! Suc k) / 2 \<longrightarrow>
            (\<exists>target. two_hot_target self x = Inr target
               \<and> length target = length (logits self)
               \<and> (\<forall>j < length (logits self).
                     target ! j = (if j = k \<or> j = Suc k then 1 / 2 else 0))))"
proof (intro conjI impI)
  assume "k < length (logits self) \<and> transfwd self x = bins self ! k"
  then show "two_hot_target self x = Inr (one_hot (int k) (length (logits self)))"
    using two_hot_on_bin [OF lh, of k x] by simp
next
  assume "transfwd self x < real_of_int (low self)"
  then show "two_hot_target self x = Inr (one_hot 0 (length (logits self)))"
    by (rule two_hot_outside(1) [OF lh n])
next
  assume "real_of_int (high self) < transfwd self x"
  then show "two_hot_target self x =
      Inr (one_hot (int (length (logits self)) - 1) (length (logits self)))"
    by (rule two_hot_outside(2) [OF lh n])
next
  let ?N = "length (logits self)"
  let ?t = "map2 (+) (map (\<lambda>v. v * (1 / 2)) (one_hot (int k) ?N))
                     (map (\<lambda>v. v * (1 / 2)) (one_hot (int (Suc k)) ?N))"
  assume a: "Suc k < ?N \<and> transfwd self x = (bins self ! k + bins self ! Suc k) / 2"
  then have run: "two_hot_target self x = Inr ?t"
    using two_hot_midpoint [OF lh, of k x] by simp
  have len: "length ?t = ?N" by simp
  have el: "\<forall>j < ?N. ?t ! j = (if j = k \<or> j = Suc k then 1 / 2 else 0)"
    by (simp add: one_hot_nth)
  from run len el
  show "\<exists>target. two_hot_target self x = Inr target \<and> length target = ?N
          \<and> (\<forall>j < ?N. target ! j = (if j = k \<or> j = Suc k then 1 / 2 else 0))"
    by blast
qed

lemma bins_example:
  "bins \<lparr>logits = [0, 0, 0], low = - 20, high = 20, transfwd = (\<lambda>x. x), transbwd = (\<lambda>x. x)\<rparr>
     = [- 20, 0, 20]"
  by (simp add: bins_def linspace_def upt_rec)

theorem two_hot_target_special_cases_witness:
  "low \<lparr>logits = [0, 0, 0], low = - 20, high = 20, transfwd = (\<lambda>x. x), transbwd = (\<lambda>x. x)\<rparr>
     < high \<lparr>logits = [0, 0, 0], low = - 20, high = 20, transfwd = (\<lambda>x. x), transbwd = (\<lambda>x. x)\<rparr>
   \<and> two_hot_target
         \<lparr>logits = [0, 0, 0], low = - 20, high = 20, transfwd = (\<lambda>x. x), transbwd = (\<lambda>x. x)\<rparr> 0
       = Inr [0, 1, 0]
   \<and> two_hot_target
         \<lparr>logits = [0, 0, 0], low = - 20, high = 20, transfwd = (\<lambda>x. x), transbwd = (\<lambda>x. x)\<rparr> (- 30)
       = Inr [1, 0, 0]
   \<and> two_hot_target
         \<lparr>logits = [0, 0, 0], low = - 20, high = 20, transfwd = (\<lambda>x. x), transbwd = (\<lambda>x. x)\<rparr> 30
       = Inr [0, 0, 1]
   \<and> (\<exists>target. two_hot_target
         \<lparr>logits = [0, 0, 0], low = - 20, high = 20, transfwd = (\<lambda>x. x), transbwd = (\<lambda>x. x)\<rparr> 10
       = Inr target \<and> target ! 1 = 1 / 2 \<and> target ! 2 = 1 / 2)"
proof -
  let ?S = "\<lparr>logits = [0, 0, 0], low = - 20, high = 20, transfwd = (\<lambda>x. x), transbwd = (\<lambda>x. x)\<rparr>"
  have lh: "low ?S < high ?S" and n: "logits ?S \<noteq> []" by simp_all
  have oh: "one_hot 1 (Suc (Suc (Suc 0))) = [0, 1, 0]"
    "one_hot 0 (Suc (Suc (Suc 0))) = [1, 0, 0]"
    "one_hot 2 (Suc (Suc (Suc 0))) = [0, 0, 1]"
    by (simp_all add: one_hot_def upt_rec)
  have 1: "two_hot_target ?S 0 = Inr [0, 1, 0]"
    using two_hot_target_special_cases [OF lh n, of 1 0] by (simp add: bins_example oh)
  have 2: "two_hot_target ?S (- 30) = Inr [1, 0, 0]"
    using two_hot_target_special_cases [OF lh n, of 0 "- 30"] by (simp add: oh)
  have 3: "two_hot_target ?S 30 = Inr [0, 0, 1]"
    using two_hot_target_special_cases [OF lh n, of 0 30] by (simp add: oh)
  have 4: "\<exists>target. two_hot_target ?S 10 = Inr target \<and> target ! 1 = 1 / 2 \<and> target ! 2 = 1 / 2"
    using two_hot_target_special_cases [OF lh n, of 1 10] by (auto simp: bins_example)
  from lh 1 2 3 4 show ?thesis by blast
qed

theorem two_hot_target_distribution_witness:
  "logits \<lparr>logits = [0, 0, 0], low = - 20, high = 20, transfwd = (\<lambda>x. x), transbwd = (\<lambda>x. x)\<rparr> \<noteq> []
   \<and> (\<exists>target. two_hot_target
         \<lparr>logits = [0, 0, 0], low = - 20, high = 20, transfwd = (\<lambda>x. x), transbwd = (\<lambda>x. x)\<rparr> 7
       = Inr target \<and> length target = 3 \<and> (\<forall>v \<in> set target. 0 \<le> v) \<and> sum_list target = 1)"
proof -
  let ?S = "\<lparr>logits = [0, 0, 0], low = - 20, high = 20, transfwd = (\<lambda>x. x), transbwd = (\<lambda>x. x)\<rparr>"
  have n: "logits ?S \<noteq> []" by simp
  from two_hot_target_distribution [OF n, of 7] n show ?thesis
    by (simp add: numeral_3_eq_3)
qed

subsection \<open>Categorical logits\<close>

lemma and_then_Inr [simp]: "and_then (Inr v) f = f v"
  by (simp add: and_then_def)

lemma and_then_Inl [simp]: "and_then (Inl e) f = Inl e"
  by (simp add: and_then_def)

lemma length_chunks: "length (chunks n xs) = length xs div n"
  by (simp add: chunks_def)

lemma chunks_nth: "i < length xs div n \<Longrightarrow> chunks n xs ! i = take n (drop (i * n) xs)"
  by (simp add: chunks_def)

lemma chunk_length:
  assumes "r \<in> set (chunks n xs)"
  shows "length r = n"
proof -
  from assms obtain i where i: "i < length xs div n" and r: "r = take n (drop (i * n) xs)"
    by (auto simp: chunks_def)
  have "0 < n" using i by (cases n) simp_all
  have "Suc i * n \<le> (length xs div n) * n"
    using i by (intro mult_le_mono1) simp
  also have "\<dots> \<le> length xs" by simp
  finally have "Suc i * n \<le> length xs" .
  then have "n \<le> length xs - i * n" by simp
  then show ?thesis by (simp add: r)
qed

lemma chunks_concat:
  assumes "\<forall>r \<in> set rs. length r = n" and "0 < n"
  shows "chunks n (concat rs) = rs"
  using assms(1)
proof (induction rs)
  case Nil
  then show ?case by (simp add: chunks_def)
next
  case (Cons r rs)
  then have r: "length r = n" and rs: "\<forall>r \<in> set rs. length r = n" by simp_all
  have len: "length (concat rs) = length rs * n"
    using rs by (induction rs) simp_all
  have d: "(n + length rs * n) div n = Suc (length rs)"
    using \<open>0 < n\<close> by simp
  have "chunks n (r @ concat rs) = r # chunks n (concat rs)"
  proof (rule nth_equalityI)
    show "length (chunks n (r @ concat rs)) = length (r # chunks n (concat rs))"
      using \<open>0 < n\<close> by (simp add: length_chunks r len)
  next
    fix i assume "i < length (chunks n (r @ concat rs))"
    then have i: "i < Suc (length rs)" by (simp add: length_chunks r len d)
    show "chunks n (r @ concat rs) ! i = (r # chunks n (concat rs)) ! i"
    proof (cases i)
      case 0
      then show ?thesis using i by (simp add: chunks_nth r len d)
    next
      case (Suc j)
      then have j: "j < length rs" using i by simp
      have "drop (Suc j * n) (r @ concat rs) = drop (j * n) (concat rs)"
        by (simp add: r)
      then show ?thesis
        using i j \<open>0 < n\<close> by (simp add: Suc chunks_nth r len d)
    qed
  qed
  then show ?case using Cons.IH [OF rs] by simp
qed


lemma sum_exp_pos: "l \<noteq> [] \<Longrightarrow> 0 < sum_list (map exp (l :: real list))"
proof (induction l)
  case Nil
  then show ?case by simp
next
  case (Cons a l)
  have "0 \<le> sum_list (map exp l)" by (rule sum_list_nonneg) auto
  moreover have "0 < exp a" by simp
  ultimately have "0 < exp a + sum_list (map exp l)" by (rule add_pos_nonneg [rotated])
  then show ?case by simp
qed

lemma length_softmax [simp]: "length (softmax l) = length l"
  by (simp add: softmax_def)

lemma softmax_nonneg: "p \<in> set (softmax l) \<Longrightarrow> 0 \<le> p"
proof -
  assume p: "p \<in> set (softmax l)"
  then have "l \<noteq> []" by (auto simp: softmax_def)
  then have "0 < sum_list (map exp l)" by (rule sum_exp_pos)
  then show ?thesis using p by (auto simp: softmax_def)
qed

lemma sum_list_divide:
  fixes xs :: "'a list" and f :: "'a \<Rightarrow> real"
  shows "sum_list (map (\<lambda>x. f x / c) xs) = sum_list (map f xs) / c"
  by (induction xs) (simp_all add: add_divide_distrib)

lemma sum_softmax: "l \<noteq> [] \<Longrightarrow> sum_list (softmax l) = 1"
  using sum_exp_pos [of l] by (simp add: softmax_def sum_list_divide)

lemma length_unimix_probs [simp]: "length (unimix_probs u k l) = length l"
  by (simp add: unimix_probs_def)

lemma sum_list_affine:
  fixes xs :: "real list"
  shows "sum_list (map (\<lambda>p. a * p + b) xs) = a * sum_list xs + real (length xs) * b"
  by (induction xs) (simp_all add: algebra_simps)

lemma sum_unimix_probs:
  assumes "length l = k" and "0 < k"
  shows "sum_list (unimix_probs u k l) = 1"
proof -
  have l: "l \<noteq> []" using assms by auto
  have "sum_list (unimix_probs u k l) = (1 - u) * sum_list (softmax l) + real k * (u * (1 / real k))"
    using assms by (simp add: unimix_probs_def sum_list_affine)
  also have "\<dots> = 1" using assms by (simp add: sum_softmax [OF l])
  finally show ?thesis .
qed

lemma unimix_probs_lower:
  assumes "u \<le> 1" and "p \<in> set (unimix_probs u k l)"
  shows "u / real k \<le> p"
proof -
  from assms(2) obtain q where q: "q \<in> set (softmax l)" and p: "p = (1 - u) * q + u * (1 / real k)"
    by (auto simp: unimix_probs_def)
  have "0 \<le> (1 - u) * q" using assms(1) softmax_nonneg [OF q] by simp
  then show ?thesis by (simp add: p)
qed

lemma length_clamp_probs [simp]: "length (clamp_probs eps ps) = length ps"
  by (simp add: clamp_probs_def)

lemma clamp_probs_range:
  assumes "0 < eps" and "eps \<le> 1 / 2" and "x \<in> set (clamp_probs eps ps)"
  shows "eps \<le> x" and "x \<le> 1 - eps"
  using assms by (auto simp: clamp_probs_def)

lemma sum_list_pointwise_le:
  fixes f g :: "real \<Rightarrow> real"
  shows "(\<And>x. x \<in> set xs \<Longrightarrow> f x \<le> g x) \<Longrightarrow> sum_list (map f xs) \<le> sum_list (map g xs)"
  by (induction xs) (simp_all add: add_mono)

lemma clamp_sum_le_one:
  assumes eps: "0 < eps" "eps \<le> 1 / 2" and lower: "\<forall>p \<in> set ps. eps \<le> p"
  shows "sum_list (clamp_probs eps ps) \<le> sum_list ps"
proof -
  have "sum_list (map (\<lambda>p. min (max p eps) (1 - eps)) ps) \<le> sum_list (map (\<lambda>p. p) ps)"
    by (rule sum_list_pointwise_le) (use lower in auto)
  then show ?thesis by (simp add: clamp_probs_def)
qed

lemma clamp_sum_le_shift:
  assumes lower: "\<forall>p \<in> set ps. m \<le> p" and m: "m \<le> eps"
  shows "sum_list (clamp_probs eps ps) \<le> sum_list ps + real (length ps) * (eps - m)"
proof -
  have "sum_list (map (\<lambda>p. min (max p eps) (1 - eps)) ps) \<le> sum_list (map (\<lambda>p. 1 * p + (eps - m)) ps)"
    by (rule sum_list_pointwise_le) (use lower m in \<open>auto simp: max_def min_def\<close>)
  also have "\<dots> = 1 * sum_list ps + real (length ps) * (eps - m)"
    by (rule sum_list_affine)
  finally show ?thesis by (simp add: clamp_probs_def)
qed


lemma softmax_ln:
  assumes "\<forall>x \<in> set c. 0 < x"
  shows "softmax (map ln c) = map (\<lambda>x. x / sum_list c) c"
proof -
  have e: "map exp (map ln c) = c"
    using assms by (induction c) simp_all
  have "softmax (map ln c) = map (\<lambda>x. exp x / sum_list c) (map ln c)"
    by (simp only: softmax_def e)
  also have "\<dots> = map (\<lambda>x. x / sum_list c) c"
    unfolding map_map using assms by auto
  finally show ?thesis .
qed

lemma clamp_ratio_bound:
  assumes u: "0 < u" "u \<le> 1" and eps: "0 < eps" "eps \<le> 1 / 2"
    and k: "length ps = k" "0 < k"
    and sum: "sum_list ps = 1" and lower: "\<forall>p \<in> set ps. u / real k \<le> p"
    and x: "x \<in> set (clamp_probs eps ps)"
  shows "0 < sum_list (clamp_probs eps ps)"
    and "u / real k * sum_list (clamp_probs eps ps) \<le> x"
proof -
  let ?c = "clamp_probs eps ps"
  let ?S = "sum_list ?c"
  define m where "m = u / real k"
  have m0: "0 < m" and m1: "m \<le> 1"
    using u k by (simp_all add: m_def divide_le_eq)
  have xr: "eps \<le> x" "x \<le> 1 - eps"
    using clamp_probs_range [OF eps x] by simp_all
  have c_ne: "?c \<noteq> []" using x by auto
  have "sum_list (map (\<lambda>_. eps) ?c) \<le> sum_list (map (\<lambda>y. y) ?c)"
    by (rule sum_list_pointwise_le) (use clamp_probs_range(1) [OF eps] in auto)
  then have S_ge: "real (length ?c) * eps \<le> ?S"
    by (simp add: sum_list_triv)
  have "ps \<noteq> []" using x by (auto simp: clamp_probs_def)
  then have "0 < real (length ?c) * eps" using eps by simp
  with S_ge show S_pos: "0 < ?S" by linarith
  show "u / real k * ?S \<le> x"
  proof (cases "eps \<le> m")
    case True
    then have le: "\<forall>p \<in> set ps. eps \<le> p" using lower by (auto simp: m_def)
    have "?S \<le> sum_list ps" by (rule clamp_sum_le_one [OF eps le])
    then have S1: "?S \<le> 1" by (simp add: sum)
    show ?thesis
    proof (cases "k = 1")
      case True
      then obtain p where ps: "ps = [p]" using k by (cases ps) auto
      then have "?S = x" using x by (simp add: clamp_probs_def)
      then show ?thesis using m1 xr eps by (simp add: m_def [symmetric] mult_le_cancel_right1)
    next
      case False
      then have "2 \<le> real k" using k by simp
      then have "m \<le> 1 / 2"
        using u by (simp add: m_def divide_le_eq)
      then have mle: "m \<le> 1 - eps" using eps by simp
      from x obtain p where p: "p \<in> set ps" and xp: "x = min (max p eps) (1 - eps)"
        by (auto simp: clamp_probs_def)
      have "m \<le> p" using lower p by (simp add: m_def)
      then have "m \<le> x" using mle by (simp add: xp)
      moreover have "m * ?S \<le> m * 1"
        using S1 m0 by (intro mult_left_mono) simp_all
      ultimately show ?thesis by (simp add: m_def)
    qed
  next
    case False
    then have me: "m \<le> eps" by simp
    have "?S \<le> sum_list ps + real (length ps) * (eps - m)"
      by (rule clamp_sum_le_shift [OF _ me]) (use lower in \<open>simp add: m_def\<close>)
    then have S2: "?S \<le> 1 + real k * (eps - m)" using sum k by simp
    have "m * ?S \<le> m * (1 + real k * (eps - m))"
      using S2 m0 by (intro mult_left_mono) simp_all
    also have "\<dots> = m + u * (eps - m)"
      using k by (simp add: m_def algebra_simps)
    also have "\<dots> \<le> m + 1 * (eps - m)"
      using u me by (intro add_left_mono mult_right_mono) simp_all
    also have "\<dots> = eps" by simp
    finally show ?thesis using xr by (simp add: m_def)
  qed
qed

lemma unimix_row_bound:
  assumes u: "0 < u" "u \<le> 1" and eps: "0 < eps" "eps \<le> 1 / 2"
    and k: "length l = k" "0 < k"
    and q: "q \<in> set (softmax (probs_to_logits eps (unimix_probs u k l)))"
  shows "u / real k \<le> q"
proof -
  let ?ps = "unimix_probs u k l"
  let ?c = "clamp_probs eps ?ps"
  have pos: "\<forall>x \<in> set ?c. 0 < x"
    using clamp_probs_range(1) [OF eps] eps(1) by fastforce
  have lk: "length ?ps = k" using k by simp
  have sum: "sum_list ?ps = 1" by (rule sum_unimix_probs [OF k])
  have lower: "\<forall>p \<in> set ?ps. u / real k \<le> p"
    using unimix_probs_lower [OF u(2)] by blast
  from q obtain x where x: "x \<in> set ?c" and qx: "q = x / sum_list ?c"
    by (auto simp: probs_to_logits_def softmax_ln [OF pos])
  have S: "0 < sum_list ?c" and b: "u / real k * sum_list ?c \<le> x"
    using clamp_ratio_bound [OF u eps lk k(2) sum lower x] by simp_all
  show ?thesis
    using S b by (simp add: qx pos_le_divide_eq)
qed


lemma length_probs_to_logits [simp]: "length (probs_to_logits eps ps) = length ps"
  by (simp add: probs_to_logits_def)

lemma prod_list_butlast: "sh \<noteq> [] \<Longrightarrow> prod_list sh = prod_list (butlast sh) * last (sh :: nat list)"
  by (induction sh) (simp_all add: algebra_simps)

lemma length_concat_const:
  "\<forall>r \<in> set rs. length r = n \<Longrightarrow> length (concat rs) = length rs * n"
  by (induction rs) simp_all

lemma mixed_rows_probs:
  assumes u: "0 < u" "u \<le> 1" and eps: "0 < eps" "eps \<le> 1 / 2" and K: "0 < K"
    and dvd: "K dvd length xs"
  defines "g \<equiv> \<lambda>l. probs_to_logits eps (unimix_probs u K l)"
  defines "ys \<equiv> concat (map g (chunks K xs))"
  shows "length ys = length xs"
    and "length (concat (map softmax (chunks K ys))) = length xs"
    and "\<forall>p \<in> set (concat (map softmax (chunks K ys))). u / real K \<le> p"
proof -
  have gl: "\<forall>r \<in> set (map g (chunks K xs)). length r = K"
    by (auto simp: g_def chunk_length)
  have n: "length (chunks K xs) * K = length xs"
    using dvd by (simp add: length_chunks)
  show "length ys = length xs"
    unfolding ys_def using length_concat_const [OF gl] n by simp
  have ch: "chunks K ys = map g (chunks K xs)"
    unfolding ys_def by (rule chunks_concat [OF gl K])
  have sl: "\<forall>r \<in> set (map softmax (map g (chunks K xs))). length r = K"
    by (auto simp: g_def chunk_length)
  show "length (concat (map softmax (chunks K ys))) = length xs"
    unfolding ch using length_concat_const [OF sl] n by simp
  show "\<forall>p \<in> set (concat (map softmax (chunks K ys))). u / real K \<le> p"
  proof
    fix p assume "p \<in> set (concat (map softmax (chunks K ys)))"
    then obtain r where r: "r \<in> set (chunks K xs)" and p: "p \<in> set (softmax (g r))"
      unfolding ch by auto
    have "length r = K" using r by (rule chunk_length)
    then show "u / real K \<le> p"
      using unimix_row_bound [OF u eps _ K, of r p] p by (simp add: g_def)
  qed
qed


lemma categorical_probs_view_split:
  assumes "view_split K out = Inr v"
  shows "data (categorical_probs v) = concat (map softmax (chunks K (data out)))"
  using assms
  by (auto simp: view_split_def categorical_probs_def map_rows_def rows_def split: if_splits)

lemma RSSM_uniform_mix_dim3:
  assumes u: "0 < unimix self" and K: "0 < discrete self"
    and dim: "length (shape t) = 3" and dvd: "discrete self dvd last (shape t)"
    and batch: "0 < prod_list (butlast (shape t))"
  shows "RSSM_uniform_mix eps self t =
           Inr \<lparr>shape = shape t,
                data = concat (map (\<lambda>l. probs_to_logits eps
                                      (unimix_probs (unimix self) (discrete self) l))
                                (chunks (discrete self) (data t)))\<rparr>"
proof -
  have ne: "shape t \<noteq> []" using dim by auto
  have bk: "butlast (shape t) @ [last (shape t) div discrete self * discrete self] = shape t"
    using dvd ne by simp
  show ?thesis
    using u K dim dvd batch ne
    by (simp add: RSSM_uniform_mix_def view_split_def view_merge_def map_rows_def rows_def
        Let_def bk butlast_append)
qed

lemma RSSM_uniform_mix_dim4:
  assumes u: "0 < unimix self" and K: "0 < discrete self"
    and dim: "length (shape t) = 4" and lst: "last (shape t) = discrete self"
    and batch: "0 < prod_list (butlast (shape t))"
  shows "RSSM_uniform_mix eps self t =
           Inr \<lparr>shape = butlast (butlast (shape t)) @ [last (butlast (shape t)) * discrete self],
                data = concat (map (\<lambda>l. probs_to_logits eps
                                      (unimix_probs (unimix self) (discrete self) l))
                                (chunks (discrete self) (data t)))\<rparr>"
proof -
  have ne: "butlast (shape t) \<noteq> []" using dim by (cases "shape t") auto
  have "prod_list (butlast (shape t)) = prod_list (butlast (butlast (shape t))) * last (butlast (shape t))"
    by (rule prod_list_butlast [OF ne])
  then have b2: "0 < prod_list (butlast (butlast (shape t)))"
    using batch by (cases "prod_list (butlast (butlast (shape t)))") simp_all
  show ?thesis
    using u K dim lst b2
    by (simp add: RSSM_uniform_mix_def view_merge_def map_rows_def rows_def Let_def)
qed


text \<open>
  C4. For logits of a supported shape and a unimix fraction \<open>u\<close> with \<open>0 < u \<le> 1\<close>,
  every class probability of the categorical distribution defined by the logits that
  \<open>_uniform_mix\<close> returns is at least \<open>u / K\<close>, for the RSSM variant (\<open>K\<close> the number of
  discrete classes, the distribution being the one \<open>compute_stochastic_state\<close> builds) and
  for the Actor variant (\<open>K\<close> the size of the last dimension). The clamp of
  \<open>probs_to_logits\<close> to \<open>[eps, 1 - eps]\<close> does not break the bound for any machine epsilon
  \<open>0 < eps \<le> 1 / 2\<close>.
\<close>

theorem uniform_mix_lower_bound:
  assumes u: "0 < u" "u \<le> 1" and eps: "0 < eps" "eps \<le> 1 / 2" and K: "0 < K"
    and wf: "wf_tensor lg"
  shows "(unimix self = u \<and> discrete self = K \<and> 0 < prod_list (butlast (shape lg))
          \<and> (length (shape lg) = 3 \<and> K dvd last (shape lg)
               \<or> length (shape lg) = 4 \<and> last (shape lg) = K) \<longrightarrow>
            (\<exists>out v. RSSM_uniform_mix eps self lg = Inr out
               \<and> view_split K out = Inr v
               \<and> length (data (categorical_probs v)) = length (data lg)
               \<and> (\<forall>p \<in> set (data (categorical_probs v)). u / real K \<le> p)))
       \<and> (shape lg \<noteq> [] \<and> last (shape lg) = K \<longrightarrow>
            (\<exists>out. Actor_uniform_mix eps u lg = Inr out
               \<and> length (data (categorical_probs out)) = length (data lg)
               \<and> (\<forall>p \<in> set (data (categorical_probs out)). u / real K \<le> p)))"
proof (intro conjI impI)
  let ?g = "\<lambda>l. probs_to_logits eps (unimix_probs u K l)"
  let ?ys = "concat (map ?g (chunks K (data lg)))"
  assume a: "unimix self = u \<and> discrete self = K \<and> 0 < prod_list (butlast (shape lg))
          \<and> (length (shape lg) = 3 \<and> K dvd last (shape lg)
               \<or> length (shape lg) = 4 \<and> last (shape lg) = K)"
  then have us: "unimix self = u" and ds: "discrete self = K"
    and batch: "0 < prod_list (butlast (shape lg))" by simp_all
  have ne: "shape lg \<noteq> []" using a by auto
  have dl: "K dvd last (shape lg)" using a by auto
  have "length (data lg) = prod_list (butlast (shape lg)) * last (shape lg)"
    using wf prod_list_butlast [OF ne] by (simp add: wf_tensor_def)
  then have dvd: "K dvd length (data lg)" using dl by simp
  note probs = mixed_rows_probs [OF u eps K dvd]
  obtain sh where run: "RSSM_uniform_mix eps self lg = Inr \<lparr>shape = sh, data = ?ys\<rparr>"
    and sh: "sh \<noteq> []" "K dvd last sh" "0 < prod_list (butlast sh)"
  proof (cases "length (shape lg) = 3")
    case True
    have "RSSM_uniform_mix eps self lg = Inr \<lparr>shape = shape lg, data = ?ys\<rparr>"
      using RSSM_uniform_mix_dim3 [of self lg eps] u(1) K True dl batch
      by (simp add: us ds)
    then show ?thesis using that ne dl batch by blast
  next
    case False
    then have d4: "length (shape lg) = 4" and lk: "last (shape lg) = K" using a by auto
    have ne2: "butlast (shape lg) \<noteq> []" using d4 by (cases "shape lg") auto
    have "prod_list (butlast (shape lg)) =
        prod_list (butlast (butlast (shape lg))) * last (butlast (shape lg))"
      by (rule prod_list_butlast [OF ne2])
    then have b2: "0 < prod_list (butlast (butlast (shape lg)))"
      using batch by (cases "prod_list (butlast (butlast (shape lg)))") simp_all
    have "RSSM_uniform_mix eps self lg =
        Inr \<lparr>shape = butlast (butlast (shape lg)) @ [last (butlast (shape lg)) * K],
             data = ?ys\<rparr>"
      using RSSM_uniform_mix_dim4 [of self lg eps] u(1) K d4 lk batch
      by (simp add: us ds)
    then show ?thesis using that [of "butlast (butlast (shape lg)) @ [last (butlast (shape lg)) * K]"] b2
      by simp
  qed
  let ?out = "\<lparr>shape = sh, data = ?ys\<rparr>"
  let ?v = "?out\<lparr>shape := butlast sh @ [last sh div K, K]\<rparr>"
  have vs: "view_split K ?out = Inr ?v"
    using sh K by (simp add: view_split_def)
  have cp: "data (categorical_probs ?v) = concat (map softmax (chunks K ?ys))"
    using categorical_probs_view_split [OF vs] by simp
  show "\<exists>out v. RSSM_uniform_mix eps self lg = Inr out
               \<and> view_split K out = Inr v
               \<and> length (data (categorical_probs v)) = length (data lg)
               \<and> (\<forall>p \<in> set (data (categorical_probs v)). u / real K \<le> p)"
    using run vs probs(2,3) unfolding cp [symmetric] by blast
next
  let ?g = "\<lambda>l. probs_to_logits eps (unimix_probs u K l)"
  let ?ys = "concat (map ?g (chunks K (data lg)))"
  assume a: "shape lg \<noteq> [] \<and> last (shape lg) = K"
  then have ne: "shape lg \<noteq> []" and lk: "last (shape lg) = K" by simp_all
  have "length (data lg) = prod_list (butlast (shape lg)) * last (shape lg)"
    using wf prod_list_butlast [OF ne] by (simp add: wf_tensor_def)
  then have dvd: "K dvd length (data lg)" using lk by simp
  note probs = mixed_rows_probs [OF u eps K dvd]
  have run: "Actor_uniform_mix eps u lg = Inr (lg\<lparr>data := ?ys\<rparr>)"
    using u(1) ne lk by (simp add: Actor_uniform_mix_def map_rows_def rows_def)
  have cp: "data (categorical_probs (lg\<lparr>data := ?ys\<rparr>)) = concat (map softmax (chunks K ?ys))"
    using lk by (simp add: categorical_probs_def map_rows_def rows_def)
  show "\<exists>out. Actor_uniform_mix eps u lg = Inr out
               \<and> length (data (categorical_probs out)) = length (data lg)
               \<and> (\<forall>p \<in> set (data (categorical_probs out)). u / real K \<le> p)"
    using run probs(2,3) unfolding cp [symmetric] by blast
qed

theorem uniform_mix_lower_bound_witness:
  "0 < (1 / 100 :: real) \<and> (1 / 100 :: real) \<le> 1 \<and> 0 < (1 / 8388608 :: real)
   \<and> (1 / 8388608 :: real) \<le> 1 / 2 \<and> 0 < (2 :: nat)
   \<and> wf_tensor \<lparr>shape = [1, 1, 2], data = [0, 0]\<rparr>
   \<and> (\<exists>out v. RSSM_uniform_mix (1 / 8388608) example_rssm \<lparr>shape = [1, 1, 2], data = [0, 0]\<rparr> = Inr out
          \<and> view_split 2 out = Inr v
          \<and> length (data (categorical_probs v)) = length [0, 0 :: real]
          \<and> (\<forall>p \<in> set (data (categorical_probs v)). 1 / 100 / real (2 :: nat) \<le> p))
   \<and> (\<exists>out. Actor_uniform_mix (1 / 8388608) (1 / 100) \<lparr>shape = [1, 1, 2], data = [0, 0]\<rparr> = Inr out
          \<and> length (data (categorical_probs out)) = length [0, 0 :: real]
          \<and> (\<forall>p \<in> set (data (categorical_probs out)). 1 / 100 / real (2 :: nat) \<le> p))"
proof -
  let ?T = "\<lparr>shape = [1, 1, 2], data = [0, 0 :: real]\<rparr>"
  have wf: "wf_tensor ?T" by (simp add: wf_tensor_def)
  have a: "unimix example_rssm = 1 / 100 \<and> discrete example_rssm = 2
      \<and> 0 < prod_list (butlast (shape ?T))
      \<and> (length (shape ?T) = 3 \<and> 2 dvd last (shape ?T)
           \<or> length (shape ?T) = 4 \<and> last (shape ?T) = 2)"
    by (simp add: example_rssm_def)
  have b: "shape ?T \<noteq> [] \<and> last (shape ?T) = 2" by simp
  show ?thesis
    using uniform_mix_lower_bound [of "1 / 100" "1 / 8388608" 2 ?T example_rssm] wf a b
    by simp
qed

subsection \<open>Reset handling in \<open>dynamic\<close>\<close>

lemma concat_chunks_take:
  "concat (map (\<lambda>i. take n (drop (i * n) xs)) [0..<m]) = take (m * n) xs"
proof (induction m)
  case 0
  show ?case by simp
next
  case (Suc m)
  have "take (m * n + n) xs = take (m * n) xs @ take n (drop (m * n) xs)"
    by (rule take_add)
  then show ?case using Suc by (simp add: add.commute)
qed

lemma concat_chunks: "n dvd length xs \<Longrightarrow> concat (chunks n xs) = xs"
  by (auto simp: chunks_def concat_chunks_take)

lemma chunks_concat_nested:
  assumes len: "\<forall>r \<in> set rs. length r = W" and dvd: "K dvd W" and K: "0 < K"
  shows "chunks K (concat rs) = concat (map (chunks K) rs)"
proof -
  have k: "\<forall>c \<in> set (concat (map (chunks K) rs)). length c = K"
    by (auto simp: chunk_length)
  have "concat (concat (map (chunks K) rs)) = concat (map (\<lambda>r. concat (chunks K r)) rs)"
    by (induction rs) simp_all
  also have "\<dots> = concat (map (\<lambda>r. r) rs)"
    using len dvd by (intro arg_cong [where f = concat] map_cong refl concat_chunks) simp
  finally have "concat (concat (map (chunks K) rs)) = concat rs" by simp
  then show ?thesis
    using chunks_concat [OF k K] by simp
qed

lemma rows_props:
  assumes wf: "wf_tensor t" and sh: "shape t = ld @ [W]" and W: "0 < W"
  shows "length (rows t) = prod_list ld"
    and "\<forall>r \<in> set (rows t). length r = W"
    and "concat (rows t) = data t"
proof -
  have len: "length (data t) = prod_list ld * W"
    using wf sh by (simp add: wf_tensor_def)
  show "length (rows t) = prod_list ld"
    using len W by (simp add: rows_def sh length_chunks)
  show "\<forall>r \<in> set (rows t). length r = W"
    by (auto simp: rows_def sh chunk_length)
  show "concat (rows t) = data t"
    using len by (simp add: rows_def sh concat_chunks)
qed

lemma rows_of_concat:
  assumes "\<forall>r \<in> set rs. length r = W" and "0 < W" and "last sh = W"
  shows "rows \<lparr>shape = sh, data = concat rs\<rparr> = rs"
  using assms by (simp add: rows_def chunks_concat)

lemma wf_of_concat:
  assumes "\<forall>r \<in> set rs. length r = W" and "length rs = prod_list ld"
  shows "wf_tensor \<lparr>shape = ld @ [W], data = concat rs\<rparr>"
  using length_concat_const [OF assms(1)] assms(2) by (simp add: wf_tensor_def)


lemma length_mode_row [simp]: "length (mode_row l) = length l"
  by (simp add: mode_row_def)

lemma length_unimix_row:
  assumes "discrete self dvd length r"
  shows "length (unimix_row eps self r) = length r"
proof (cases "unimix self > 0")
  case True
  have "\<forall>c \<in> set (map (\<lambda>l. probs_to_logits eps (unimix_probs (unimix self) (discrete self) l))
                       (chunks (discrete self) r)). length c = discrete self"
    by (auto simp: chunk_length)
  from length_concat_const [OF this] show ?thesis
    using True assms by (simp add: unimix_row_def length_chunks)
next
  case False
  then show ?thesis by (simp add: unimix_row_def)
qed

lemma length_mode_state_row:
  assumes "k dvd length r"
  shows "length (mode_state_row k r) = length r"
proof -
  have "\<forall>c \<in> set (map mode_row (chunks k r)). length c = k"
    by (auto simp: chunk_length)
  from length_concat_const [OF this] show ?thesis
    using assms by (simp add: mode_state_row_def length_chunks)
qed

lemma concat_map_chunks_rows:
  assumes len: "\<forall>r \<in> set rs. length r = W" and dvd: "K dvd W" and K: "0 < K"
  shows "concat (map g (chunks K (concat rs))) = concat (map (\<lambda>r. concat (map g (chunks K r))) rs)"
  unfolding chunks_concat_nested [OF len dvd K]
  by (induction rs) simp_all

lemma apply_module_rows:
  assumes m: "wf_module m" and wf: "wf_tensor t" and sh: "shape t = ld @ [R]" and R: "0 < R"
  shows "apply_module m t = \<lparr>shape = ld @ [out_features m], data = concat (map (forward m) (rows t))\<rparr>"
    and "rows (apply_module m t) = map (forward m) (rows t)"
    and "wf_tensor (apply_module m t)"
proof -
  have out: "0 < out_features m" and len: "\<forall>r \<in> set (map (forward m) (rows t)). length r = out_features m"
    using m by (auto simp: wf_module_def)
  show eq: "apply_module m t = \<lparr>shape = ld @ [out_features m], data = concat (map (forward m) (rows t))\<rparr>"
    by (simp add: apply_module_def sh)
  show "rows (apply_module m t) = map (forward m) (rows t)"
    unfolding eq by (rule rows_of_concat [OF len out]) simp
  show "wf_tensor (apply_module m t)"
    unfolding eq by (rule wf_of_concat [OF len]) (simp add: rows_props(1) [OF wf sh R])
qed


lemma RSSM_uniform_mix_rows:
  assumes wf: "wf_tensor t" and sh: "shape t = ld @ [W]" and ld: "length ld = 2"
    and batch: "0 < prod_list ld" and K: "0 < discrete self" and dvd: "discrete self dvd W"
    and W: "0 < W"
  shows "RSSM_uniform_mix eps self t =
           Inr \<lparr>shape = ld @ [W], data = concat (map (unimix_row eps self) (rows t))\<rparr>"
proof (cases "unimix self > 0")
  case True
  have dim: "length (shape t) = 3" using sh ld by simp
  have rl: "\<forall>r \<in> set (rows t). length r = W" and cr: "concat (rows t) = data t"
    using rows_props [OF wf sh W] by simp_all
  have "RSSM_uniform_mix eps self t =
      Inr \<lparr>shape = shape t,
           data = concat (map (\<lambda>l. probs_to_logits eps (unimix_probs (unimix self) (discrete self) l))
                           (chunks (discrete self) (concat (rows t))))\<rparr>"
    unfolding cr
    by (rule RSSM_uniform_mix_dim3 [OF True K dim]) (simp_all add: sh dvd batch)
  moreover have "unimix_row eps self =
      (\<lambda>r. concat (map (\<lambda>l. probs_to_logits eps (unimix_probs (unimix self) (discrete self) l))
                       (chunks (discrete self) r)))"
    using True by (simp add: unimix_row_def fun_eq_iff)
  ultimately show ?thesis
    by (simp add: concat_map_chunks_rows [OF rl dvd K] sh)
next
  case False
  have cr: "concat (rows t) = data t"
    using rows_props [OF wf sh W] by simp
  have bk: "ld @ [W div discrete self * discrete self] = ld @ [W]"
    using dvd by simp
  have "RSSM_uniform_mix eps self t = Inr \<lparr>shape = ld @ [W], data = data t\<rparr>"
    using False ld batch K dvd
    by (simp add: RSSM_uniform_mix_def view_split_def view_merge_def Let_def sh bk butlast_append)
  moreover have "unimix_row eps self = (\<lambda>r. r)"
    using False by (simp add: unimix_row_def fun_eq_iff)
  ultimately show ?thesis
    by (simp add: cr)
qed

lemma compute_stochastic_state_mode:
  assumes wf: "wf_tensor t" and sh: "shape t = ld @ [W]"
    and batch: "0 < prod_list ld" and K: "0 < K" and dvd: "K dvd W" and W: "0 < W"
  shows "compute_stochastic_state t K False draw =
           Inr \<lparr>shape = ld @ [W div K, K], data = concat (map (mode_state_row K) (rows t))\<rparr>"
proof -
  have rl: "\<forall>r \<in> set (rows t). length r = W" and cr: "concat (rows t) = data t"
    using rows_props [OF wf sh W] by simp_all
  have "compute_stochastic_state t K False draw =
      Inr \<lparr>shape = ld @ [W div K, K], data = concat (map mode_row (chunks K (concat (rows t))))\<rparr>"
    unfolding cr using batch K dvd
    by (simp add: compute_stochastic_state_def view_split_def map_rows_def rows_def sh)
  moreover have "mode_state_row K = (\<lambda>r. concat (map mode_row (chunks K r)))"
    by (simp add: mode_state_row_def fun_eq_iff)
  ultimately show ?thesis
    by (simp add: concat_map_chunks_rows [OF rl dvd K])
qed

lemma RSSM_transition_mode:
  assumes tm: "wf_module (transition_model self)"
    and K: "0 < discrete self" and dvd: "discrete self dvd out_features (transition_model self)"
    and wf: "wf_tensor t" and sh: "shape t = ld @ [R]" and ld: "length ld = 2"
    and batch: "0 < prod_list ld" and R: "0 < R"
  shows "RSSM_transition eps self t False draw =
           Inr (\<lparr>shape = ld @ [out_features (transition_model self)],
                 data = concat (map (\<lambda>h. unimix_row eps self (forward (transition_model self) h))
                                 (rows t))\<rparr>,
                \<lparr>shape = ld @ [out_features (transition_model self) div discrete self, discrete self],
                 data = concat (map (prior_mode_row eps self) (rows t))\<rparr>)"
proof -
  let ?m = "transition_model self"
  let ?W = "out_features ?m"
  let ?lg = "\<lparr>shape = ld @ [?W], data = concat (map (unimix_row eps self) (rows (apply_module ?m t)))\<rparr>"
  have W: "0 < ?W" using tm by (simp add: wf_module_def)
  note am = apply_module_rows [OF tm wf sh R]
  have sha: "shape (apply_module ?m t) = ld @ [?W]" by (simp add: am(1))
  have mix: "RSSM_uniform_mix eps self (apply_module ?m t) = Inr ?lg"
    by (rule RSSM_uniform_mix_rows [OF am(3) sha ld batch K dvd W])
  have rl: "\<forall>r \<in> set (map (unimix_row eps self) (rows (apply_module ?m t))). length r = ?W"
    using tm dvd by (auto simp: am(2) length_unimix_row wf_module_def)
  have nrows: "length (map (unimix_row eps self) (rows (apply_module ?m t))) = prod_list ld"
    by (simp add: am(2) rows_props(1) [OF wf sh R])
  have wfl: "wf_tensor ?lg" by (rule wf_of_concat [OF rl nrows])
  have rlg: "rows ?lg = map (unimix_row eps self) (rows (apply_module ?m t))"
    by (rule rows_of_concat [OF rl W]) simp
  have cs: "compute_stochastic_state ?lg (discrete self) False draw =
      Inr \<lparr>shape = ld @ [?W div discrete self, discrete self],
           data = concat (map (mode_state_row (discrete self)) (rows ?lg))\<rparr>"
    by (rule compute_stochastic_state_mode [OF wfl _ batch K dvd W]) simp
  have "RSSM_transition eps self t False draw =
      and_then (compute_stochastic_state ?lg (discrete self) False draw) (\<lambda>state. Inr (?lg, state))"
    by (simp only: RSSM_transition_def mix and_then_Inr)
  also have "\<dots> = Inr (?lg, \<lparr>shape = ld @ [?W div discrete self, discrete self],
           data = concat (map (mode_state_row (discrete self)) (rows ?lg))\<rparr>)"
    by (simp only: cs and_then_Inr)
  finally have run: "RSSM_transition eps self t False draw =
      Inr (?lg, \<lparr>shape = ld @ [?W div discrete self, discrete self],
           data = concat (map (mode_state_row (discrete self)) (rows ?lg))\<rparr>)" .
  have pm: "prior_mode_row eps self =
      (\<lambda>h. mode_state_row (discrete self) (unimix_row eps self (forward ?m h)))"
    by (simp add: prior_mode_row_def fun_eq_iff)
  show ?thesis
    unfolding run unfolding rlg unfolding am(2) pm by (simp add: comp_def)
qed


lemma map2_concat:
  assumes "list_all2 (\<lambda>x y. length x = length y) xs ys"
  shows "map2 f (concat xs) (concat ys) = concat (map2 (map2 f) xs ys)"
  using assms by (induction xs ys rule: list_all2_induct) simp_all

lemma mask_data_length:
  assumes "wf_tensor m" and "shape m = ld @ [1]"
  shows "length (data m) = prod_list ld"
  using assms by (simp add: wf_tensor_def)

lemma bmul_rows:
  assumes wfm: "wf_tensor m" and shm: "shape m = ld @ [1]"
    and wf: "wf_tensor t" and sh: "shape t = ld @ [W]" and W: "0 < W"
  shows "shape (bmul m t) = ld @ [W]"
    and "wf_tensor (bmul m t)"
    and "rows (bmul m t) = map2 (\<lambda>c r. map (\<lambda>x. c * x) r) (data m) (rows t)"
proof -
  let ?rs = "map2 (\<lambda>c r. map (\<lambda>x. c * x) r) (data m) (rows t)"
  note rp = rows_props [OF wf sh W]
  have eq: "bmul m t = \<lparr>shape = ld @ [W], data = concat ?rs\<rparr>"
    by (simp add: bmul_def sh)
  have len: "\<forall>r \<in> set ?rs. length r = W"
    using rp(2) by (auto simp: set_zip)
  have n: "length ?rs = prod_list ld"
    using rp(1) mask_data_length [OF wfm shm] by simp
  show "shape (bmul m t) = ld @ [W]" by (simp add: eq)
  show "wf_tensor (bmul m t)" unfolding eq by (rule wf_of_concat [OF len n])
  show "rows (bmul m t) = ?rs" unfolding eq by (rule rows_of_concat [OF len W]) simp
qed

lemma tadd_rows:
  assumes wfa: "wf_tensor a" and sha: "shape a = ld @ [W]"
    and wfb: "wf_tensor b" and shb: "shape b = ld @ [W]" and W: "0 < W"
  shows "shape (tadd a b) = ld @ [W]"
    and "wf_tensor (tadd a b)"
    and "rows (tadd a b) = map2 (map2 (+)) (rows a) (rows b)"
proof -
  let ?rs = "map2 (map2 (+)) (rows a) (rows b)"
  note ra = rows_props [OF wfa sha W] and rb = rows_props [OF wfb shb W]
  have all2: "list_all2 (\<lambda>x y. length x = length y) (rows a) (rows b)"
    using ra(1,2) rb(1,2) by (simp add: list_all2_conv_all_nth)
  have "map2 (+) (data a) (data b) = concat ?rs"
    using map2_concat [OF all2, of "(+)"] by (simp add: ra(3) rb(3))
  then have eq: "tadd a b = \<lparr>shape = ld @ [W], data = concat ?rs\<rparr>"
    by (simp add: tadd_def sha)
  have len: "\<forall>r \<in> set ?rs. length r = W"
    using ra(2) rb(2) by (auto simp: set_zip)
  have n: "length ?rs = prod_list ld"
    using ra(1) rb(1) by simp
  show "shape (tadd a b) = ld @ [W]" by (simp add: eq)
  show "wf_tensor (tadd a b)" unfolding eq by (rule wf_of_concat [OF len n])
  show "rows (tadd a b) = ?rs" unfolding eq by (rule rows_of_concat [OF len W]) simp
qed

lemma one_minus_props:
  assumes "wf_tensor m"
  shows "shape (one_minus m) = shape m" and "wf_tensor (one_minus m)"
    and "data (one_minus m) = map (\<lambda>x. 1 - x) (data m)"
  using assms by (simp_all add: one_minus_def wf_tensor_def)

lemma reset_mix:
  assumes wfm: "wf_tensor m" and shm: "shape m = ld @ [1]"
    and wfx: "wf_tensor x" and shx: "shape x = ld @ [W]"
    and wfy: "wf_tensor y" and shy: "shape y = ld @ [W]" and W: "0 < W"
  defines "z \<equiv> tadd (bmul (one_minus m) x) (bmul m y)"
  shows "shape z = ld @ [W]" and "wf_tensor z" and "length (rows z) = prod_list ld"
    and "b < prod_list ld \<Longrightarrow>
         rows z ! b = map2 (+) (map (\<lambda>v. (1 - data m ! b) * v) (rows x ! b))
                               (map (\<lambda>v. data m ! b * v) (rows y ! b))"
proof -
  note om = one_minus_props [OF wfm]
  have shom: "shape (one_minus m) = ld @ [1]" using om(1) shm by simp
  note bx = bmul_rows [OF om(2) shom wfx shx W]
  note by' = bmul_rows [OF wfm shm wfy shy W]
  note ta = tadd_rows [OF bx(2) bx(1) by'(2) by'(1) W]
  show "shape z = ld @ [W]" and wz: "wf_tensor z" by (simp_all add: z_def ta)
  show nz: "length (rows z) = prod_list ld"
    using rows_props(1) [OF wz, of ld W] W ta(1) by (simp add: z_def)
  show "rows z ! b = map2 (+) (map (\<lambda>v. (1 - data m ! b) * v) (rows x ! b))
                               (map (\<lambda>v. data m ! b * v) (rows y ! b))"
    if b: "b < prod_list ld"
  proof -
    have lx: "length (rows x) = prod_list ld" and ly: "length (rows y) = prod_list ld"
      using rows_props(1) [OF wfx shx W] rows_props(1) [OF wfy shy W] by simp_all
    have lm: "length (data m) = prod_list ld" by (rule mask_data_length [OF wfm shm])
    show ?thesis
      using b lx ly lm by (simp add: z_def ta(3) bx(3) by'(3) om(3))
  qed
qed

lemma mix_row_one:
  assumes "length rx = length ry"
  shows "map2 (+) (map (\<lambda>v. (1 - 1) * v) rx) (map (\<lambda>v. 1 * v) ry) = (ry :: real list)"
  using assms by (induction rx ry rule: list_induct2) simp_all

lemma mix_row_zero:
  assumes "length rx = length ry"
  shows "map2 (+) (map (\<lambda>v. (1 - 0) * v) rx) (map (\<lambda>v. 0 * v) ry) = (rx :: real list)"
  using assms by (induction rx ry rule: list_induct2) simp_all


lemma chunks_replicate:
  assumes "b < n" and "0 < W"
  shows "chunks W (replicate (n * W) c) ! b = replicate W c"
proof -
  have "Suc b * W \<le> n * W" using assms(1) by (intro mult_le_mono1) simp
  then have "W \<le> n * W - b * W" by simp
  then show ?thesis
    using assms by (simp add: chunks_nth)
qed

lemma tanh_zeros_like_props:
  assumes wf: "wf_tensor t" and sh: "shape t = ld @ [W]" and W: "0 < W"
  shows "shape (tanh_zeros_like t) = ld @ [W]" and "wf_tensor (tanh_zeros_like t)"
    and "b < prod_list ld \<Longrightarrow> rows (tanh_zeros_like t) ! b = replicate W (tanh 0)"
proof -
  have len: "length (data t) = prod_list ld * W" using wf sh by (simp add: wf_tensor_def)
  have d: "data (tanh_zeros_like t) = replicate (prod_list ld * W) (tanh 0)"
    by (simp add: tanh_zeros_like_def zeros_like_def len)
  show s: "shape (tanh_zeros_like t) = ld @ [W]"
    by (simp add: tanh_zeros_like_def zeros_like_def sh)
  show "wf_tensor (tanh_zeros_like t)"
    using wf by (simp add: tanh_zeros_like_def zeros_like_def wf_tensor_def)
  show "rows (tanh_zeros_like t) ! b = replicate W (tanh 0)" if "b < prod_list ld"
    using chunks_replicate [OF that W, of "tanh 0"] by (simp only: rows_def d s last_snoc)
qed

lemma rows_nth_length:
  assumes "wf_tensor t" and "shape t = ld @ [W]" and "0 < W" and "b < prod_list ld"
  shows "length (rows t ! b) = W"
  using rows_props(1,2) [OF assms(1,2,3)] assms(4) by simp

lemma view_merge_rows:
  assumes wf: "wf_tensor p" and sh: "shape p = ld @ [N, K]" and batch: "0 < prod_list ld"
  shows "view_merge p = Inr \<lparr>shape = ld @ [N * K], data = data p\<rparr>"
    and "wf_tensor \<lparr>shape = ld @ [N * K], data = data p\<rparr>"
  using assms by (simp_all add: view_merge_def wf_tensor_def butlast_append)

lemma dynamic_reset_rows:
  assumes tm: "wf_module (transition_model self)"
    and K: "discrete self = K" "0 < K" and out: "out_features (transition_model self) = N * K"
    and N: "0 < N"
    and ld: "length ld = 2" and batch: "0 < prod_list ld"
    and wfp: "wf_tensor p" and shp: "shape p = ld @ [N, K]"
    and wfh: "wf_tensor h" and shh: "shape h = ld @ [R]" and R: "0 < R"
    and wfa: "wf_tensor a" and sha: "shape a = ld @ [A]" and A: "0 < A"
    and wff: "wf_tensor f" and shf: "shape f = ld @ [1]"
  shows "\<exists>a' h' p'. dynamic_reset eps self p h a f = Inr (a', h', p')
           \<and> wf_tensor a' \<and> shape a' = ld @ [A]
           \<and> wf_tensor h' \<and> shape h' = ld @ [R]
           \<and> wf_tensor p' \<and> shape p' = ld @ [N * K]
           \<and> (\<forall>b < prod_list ld.
                 rows a' ! b = map (\<lambda>x. (1 - data f ! b) * x) (rows a ! b)
                 \<and> rows h' ! b = map2 (+) (map (\<lambda>v. (1 - data f ! b) * v) (rows h ! b))
                                          (map (\<lambda>v. data f ! b * v) (replicate R (tanh 0)))
                 \<and> rows p' ! b = map2 (+) (map (\<lambda>v. (1 - data f ! b) * v)
                                               (chunks (N * K) (data p) ! b))
                                          (map (\<lambda>v. data f ! b * v)
                                               (prior_mode_row eps self (rows h' ! b))))"
proof -
  let ?B = "prod_list ld"
  let ?S = "N * K"
  define a' where "a' = bmul (one_minus f) a"
  define h' where "h' = tadd (bmul (one_minus f) h) (bmul f (tanh_zeros_like h))"
  define pf where "pf = \<lparr>shape = ld @ [?S], data = data p\<rparr>"
  define pr where "pr = \<lparr>shape = ld @ [?S], data = concat (map (prior_mode_row eps self) (rows h'))\<rparr>"
  define p' where "p' = tadd (bmul (one_minus f) pf) (bmul f pr)"
  have S: "0 < ?S" using N K by simp
  have dvd: "discrete self dvd out_features (transition_model self)"
    by (simp add: K out)
  have Kd: "0 < discrete self" using K by simp
  note om = one_minus_props [OF wff]
  have shom: "shape (one_minus f) = ld @ [1]" using om(1) shf by simp
  have lf: "length (data f) = ?B" by (rule mask_data_length [OF wff shf])
  note ba = bmul_rows [OF om(2) shom wfa sha A]
  have la: "length (rows a) = ?B" by (rule rows_props(1) [OF wfa sha A])
  have ra: "rows a' ! b = map (\<lambda>x. (1 - data f ! b) * x) (rows a ! b)" if "b < ?B" for b
    using that la lf by (simp add: a'_def ba(3) om(3))
  note tz = tanh_zeros_like_props [OF wfh shh R]
  note mh = reset_mix [OF wff shf wfh shh tz(2) tz(1) R, folded h'_def]
  have rh: "rows h' ! b = map2 (+) (map (\<lambda>v. (1 - data f ! b) * v) (rows h ! b))
                                   (map (\<lambda>v. data f ! b * v) (replicate R (tanh 0)))"
    if "b < ?B" for b
    using mh(4) [OF that] tz(3) [OF that] by simp
  note vm = view_merge_rows [OF wfp shp batch, folded pf_def]
  have tr: "RSSM_transition eps self h' False (\<lambda>i l. l) =
      Inr (\<lparr>shape = ld @ [?S],
            data = concat (map (\<lambda>x. unimix_row eps self (forward (transition_model self) x))
                            (rows h'))\<rparr>,
           \<lparr>shape = ld @ [N, K],
            data = concat (map (prior_mode_row eps self) (rows h'))\<rparr>)"
    using RSSM_transition_mode [OF tm Kd dvd mh(2) mh(1) ld batch R, of eps "\<lambda>i l. l"] K(2)
    by (simp add: K(1) out)
  have va: "view_as \<lparr>shape = ld @ [N, K],
            data = concat (map (prior_mode_row eps self) (rows h'))\<rparr> pf = Inr pr"
    using K by (simp add: view_as_def pf_def pr_def)
  have run: "dynamic_reset eps self p h a f = Inr (a', h', p')"
  proof -
    have shapes: "dynamic_shapes p h a f"
      using wfp wfh wfa wff R A S
      by (simp add: dynamic_shapes_def Let_def shp shh sha shf butlast_append)
    show ?thesis
      by (simp add: dynamic_reset_def shapes Let_def vm(1) tr va
          a'_def [symmetric] h'_def [symmetric] p'_def [symmetric])
  qed
  have plen: "\<forall>r \<in> set (map (prior_mode_row eps self) (rows h')). length r = ?S"
  proof -
    have "length (prior_mode_row eps self x) = ?S" for x
    proof -
      have l1: "length (forward (transition_model self) x) = ?S"
        using tm by (simp add: wf_module_def out)
      have l2: "length (unimix_row eps self (forward (transition_model self) x)) = ?S"
        using length_unimix_row [of self "forward (transition_model self) x" eps] l1 K
        by simp
      show ?thesis
        using length_mode_state_row [of K "unimix_row eps self (forward (transition_model self) x)"] l2
        by (simp add: prior_mode_row_def K)
    qed
    then show ?thesis by simp
  qed
  have pn: "length (map (prior_mode_row eps self) (rows h')) = ?B"
    using mh(3) by simp
  have wfpr: "wf_tensor pr" unfolding pr_def by (rule wf_of_concat [OF plen pn])
  have shpr: "shape pr = ld @ [?S]" by (simp add: pr_def)
  have rpr: "rows pr = map (prior_mode_row eps self) (rows h')"
    unfolding pr_def by (rule rows_of_concat [OF plen S]) simp
  have shpf: "shape pf = ld @ [?S]" by (simp add: pf_def)
  note mp = reset_mix [OF wff shf vm(2) shpf wfpr shpr S, folded p'_def]
  have rpf: "rows pf = chunks ?S (data p)" by (simp add: rows_def pf_def)
  have rp: "rows p' ! b = map2 (+) (map (\<lambda>v. (1 - data f ! b) * v) (chunks ?S (data p) ! b))
                                   (map (\<lambda>v. data f ! b * v) (prior_mode_row eps self (rows h' ! b)))"
    if "b < ?B" for b
    using mp(4) [OF that] that mh(3) by (simp add: rpr rpf)
  have wa: "wf_tensor a'" and sa: "shape a' = ld @ [A]"
    by (simp_all add: a'_def ba)
  from run wa sa mh(1,2) mp(1,2) ra rh rp show ?thesis
    by blast
qed

lemma map_scale_zero: "map (\<lambda>x. (1 - 1) * x) r = replicate (length r) (0 :: real)"
  by (induction r) simp_all

lemma map_scale_one: "map (\<lambda>x. (1 - 0) * x) r = (r :: real list)"
  by (induction r) simp_all

lemma chunks_nth_length:
  assumes "b < length xs div n"
  shows "length (chunks n xs ! b) = n"
  by (rule chunk_length [of _ n xs]) (use assms in \<open>simp add: length_chunks\<close>)

lemma init_prior_row:
  assumes tm: "wf_module (transition_model self)"
    and K: "discrete self = K" "0 < K" and out: "out_features (transition_model self) = N * K"
    and R: "0 < R"
  shows "\<exists>lg0 p0. RSSM_transition eps self \<lparr>shape = [1, 1, R], data = replicate R (tanh 0)\<rparr> False draw
                    = Inr (lg0, p0)
           \<and> data p0 = prior_mode_row eps self (replicate R (tanh 0))"
proof -
  define t where "t = \<lparr>shape = [1, 1, R], data = replicate R (tanh 0 :: real)\<rparr>"
  have wf: "wf_tensor t" by (simp add: wf_tensor_def t_def)
  have sh: "shape t = [1, 1] @ [R]" by (simp add: t_def)
  have r: "rows t = [replicate R (tanh 0)]"
    using R by (simp add: rows_def chunks_def t_def)
  have dvd: "discrete self dvd out_features (transition_model self)" by (simp add: K out)
  have Kd: "0 < discrete self" using K by simp
  have "RSSM_transition eps self t False draw =
      Inr (\<lparr>shape = [1, 1] @ [out_features (transition_model self)],
            data = concat (map (\<lambda>h. unimix_row eps self (forward (transition_model self) h))
                            (rows t))\<rparr>,
           \<lparr>shape = [1, 1] @ [out_features (transition_model self) div discrete self, discrete self],
            data = concat (map (prior_mode_row eps self) (rows t))\<rparr>)"
    by (rule RSSM_transition_mode [OF tm Kd dvd wf sh _ _ R]) simp_all
  moreover have "concat (map (prior_mode_row eps self) (rows t)) =
      prior_mode_row eps self (replicate R (tanh 0))"
    by (simp only: r list.map concat.simps append_Nil2)
  ultimately show ?thesis
    unfolding t_def by force
qed

text \<open>
  C3. In \<open>dynamic\<close>, before the recurrent model is applied: at every batch position where
  \<open>is_first\<close> is one, the action used is zero, the recurrent state used is \<open>tanh(0)\<close>, and
  the stochastic state used is the mode prior that the transition model gives for that reset
  recurrent state (the prior \<open>_transition\<close> computes, without sampling, for a single position
  holding \<open>tanh(0)\<close>); at every position where \<open>is_first\<close> is zero, the supplied action,
  recurrent state and stochastic state are used unchanged.
\<close>

theorem dynamic_reset_positions:
  assumes tm: "wf_module (transition_model self)"
    and K: "discrete self = K" "0 < K" and out: "out_features (transition_model self) = N * K"
    and N: "0 < N"
    and ld: "length ld = 2" and batch: "0 < prod_list ld"
    and wfp: "wf_tensor p" and shp: "shape p = ld @ [N, K]"
    and wfh: "wf_tensor h" and shh: "shape h = ld @ [R]" and R: "0 < R"
    and wfa: "wf_tensor a" and sha: "shape a = ld @ [A]" and A: "0 < A"
    and wff: "wf_tensor f" and shf: "shape f = ld @ [1]"
    and b: "b < prod_list ld"
  shows "\<exists>a' h' p'. dynamic_reset eps self p h a f = Inr (a', h', p')
           \<and> (data f ! b = 1 \<longrightarrow>
                 rows a' ! b = replicate A 0
                 \<and> rows h' ! b = replicate R (tanh 0)
                 \<and> (\<exists>lg0 p0.
                       RSSM_transition eps self \<lparr>shape = [1, 1, R], data = replicate R (tanh 0)\<rparr>
                         False draw = Inr (lg0, p0)
                       \<and> rows p' ! b = data p0))
           \<and> (data f ! b = 0 \<longrightarrow>
                 rows a' ! b = rows a ! b
                 \<and> rows h' ! b = rows h ! b
                 \<and> rows p' ! b = chunks (N * K) (data p) ! b)"
proof -
  let ?S = "N * K"
  let ?init = "replicate R (tanh 0 :: real)"
  from dynamic_reset_rows [OF tm K out N ld batch wfp shp wfh shh R wfa sha A wff shf, of eps]
  obtain a' h' p' where run: "dynamic_reset eps self p h a f = Inr (a', h', p')"
    and ra: "rows a' ! b = map (\<lambda>x. (1 - data f ! b) * x) (rows a ! b)"
    and rh: "rows h' ! b = map2 (+) (map (\<lambda>v. (1 - data f ! b) * v) (rows h ! b))
                                    (map (\<lambda>v. data f ! b * v) ?init)"
    and rp: "rows p' ! b = map2 (+) (map (\<lambda>v. (1 - data f ! b) * v) (chunks ?S (data p) ! b))
                                    (map (\<lambda>v. data f ! b * v)
                                         (prior_mode_row eps self (rows h' ! b)))"
    using b by blast
  have la: "length (rows a ! b) = A" by (rule rows_nth_length [OF wfa sha A b])
  have lh: "length (rows h ! b) = R" by (rule rows_nth_length [OF wfh shh R b])
  have "length (data p) = prod_list ld * ?S"
    using wfp shp by (simp add: wf_tensor_def)
  then have "b < length (data p) div ?S" using b N K by simp
  then have lp: "length (chunks ?S (data p) ! b) = ?S" by (rule chunks_nth_length)
  have lq: "length (prior_mode_row eps self x) = ?S" for x
  proof -
    have l1: "length (forward (transition_model self) x) = ?S"
      using tm by (simp add: wf_module_def out)
    have l2: "length (unimix_row eps self (forward (transition_model self) x)) = ?S"
      using length_unimix_row [of self "forward (transition_model self) x" eps] l1 K by simp
    show ?thesis
      using length_mode_state_row [of K "unimix_row eps self (forward (transition_model self) x)"] l2
      by (simp add: prior_mode_row_def K)
  qed
  from init_prior_row [OF tm K out R, of eps draw]
  obtain lg0 p0 where
    tr0: "RSSM_transition eps self \<lparr>shape = [1, 1, R], data = ?init\<rparr> False draw = Inr (lg0, p0)"
    and dp0: "data p0 = prior_mode_row eps self ?init"
    by blast
  have one: "rows a' ! b = replicate A 0 \<and> rows h' ! b = ?init \<and> rows p' ! b = data p0"
    if f1: "data f ! b = 1"
  proof -
    have 1: "rows a' ! b = replicate A 0"
      using map_scale_zero [of "rows a ! b"] la by (simp only: ra f1)
    have 2: "rows h' ! b = ?init"
      using mix_row_one [of "rows h ! b" ?init] lh by (simp only: rh f1 length_replicate)
    have "rows p' ! b = prior_mode_row eps self (rows h' ! b)"
      using mix_row_one [of "chunks ?S (data p) ! b" "prior_mode_row eps self (rows h' ! b)"] lp lq
      by (simp only: rp f1)
    then have 3: "rows p' ! b = data p0" by (simp only: 2 dp0)
    from 1 2 3 show ?thesis by blast
  qed
  have zero: "rows a' ! b = rows a ! b \<and> rows h' ! b = rows h ! b
      \<and> rows p' ! b = chunks ?S (data p) ! b"
    if f0: "data f ! b = 0"
  proof -
    have 1: "rows a' ! b = rows a ! b"
      using map_scale_one [of "rows a ! b"] by (simp only: ra f0)
    have 2: "rows h' ! b = rows h ! b"
      using mix_row_zero [of "rows h ! b" ?init] lh by (simp only: rh f0 length_replicate)
    have 3: "rows p' ! b = chunks ?S (data p) ! b"
      using mix_row_zero [of "chunks ?S (data p) ! b" "prior_mode_row eps self (rows h' ! b)"] lp lq
      by (simp only: rp f0)
    from 1 2 3 show ?thesis by blast
  qed
  from run one zero tr0 show ?thesis by blast
qed

lemma example_rssm_wf:
  "wf_module (transition_model example_rssm)"
  "wf_module (representation_model example_rssm)"
  "wf_recurrent_model (recurrent_model example_rssm)"
  "discrete example_rssm = 2"
  "out_features (transition_model example_rssm) = 1 * 2"
  "out_features (representation_model example_rssm) = 1 * 2"
  by (simp_all add: example_rssm_def wf_module_def wf_recurrent_model_def)

theorem dynamic_reset_positions_witness:
  "wf_module (transition_model example_rssm) \<and> discrete example_rssm = 2 \<and> 0 < (2 :: nat)
   \<and> out_features (transition_model example_rssm) = 1 * 2 \<and> 0 < (1 :: nat)
   \<and> length [1, 2 :: nat] = 2 \<and> 0 < prod_list [1, 2 :: nat]
   \<and> wf_tensor \<lparr>shape = [1, 2] @ [1, 2], data = [0, 1, 1, 0]\<rparr>
   \<and> wf_tensor \<lparr>shape = [1, 2] @ [1], data = [3, 4]\<rparr>
   \<and> wf_tensor \<lparr>shape = [1, 2] @ [1], data = [5, 6]\<rparr>
   \<and> wf_tensor \<lparr>shape = [1, 2] @ [1], data = [1, 0]\<rparr>
   \<and> (0 :: nat) < prod_list [1, 2] \<and> (1 :: nat) < prod_list [1, 2]
   \<and> (\<exists>a' h' p'.
         dynamic_reset (1 / 8388608) example_rssm
           \<lparr>shape = [1, 2] @ [1, 2], data = [0, 1, 1, 0]\<rparr> \<lparr>shape = [1, 2] @ [1], data = [3, 4]\<rparr>
           \<lparr>shape = [1, 2] @ [1], data = [5, 6]\<rparr> \<lparr>shape = [1, 2] @ [1], data = [1, 0]\<rparr>
         = Inr (a', h', p')
         \<and> rows a' ! 0 = replicate 1 0 \<and> rows h' ! 0 = replicate 1 (tanh 0))
   \<and> (\<exists>a' h' p'.
         dynamic_reset (1 / 8388608) example_rssm
           \<lparr>shape = [1, 2] @ [1, 2], data = [0, 1, 1, 0]\<rparr> \<lparr>shape = [1, 2] @ [1], data = [3, 4]\<rparr>
           \<lparr>shape = [1, 2] @ [1], data = [5, 6]\<rparr> \<lparr>shape = [1, 2] @ [1], data = [1, 0]\<rparr>
         = Inr (a', h', p')
         \<and> rows a' ! 1 = rows \<lparr>shape = [1, 2] @ [1], data = [5, 6]\<rparr> ! 1
         \<and> rows h' ! 1 = rows \<lparr>shape = [1, 2] @ [1], data = [3, 4]\<rparr> ! 1)"
proof -
  let ?p = "\<lparr>shape = [1, 2] @ [1, 2], data = [0, 1, 1, 0 :: real]\<rparr>"
  let ?h = "\<lparr>shape = [1, 2] @ [1], data = [3, 4 :: real]\<rparr>"
  let ?a = "\<lparr>shape = [1, 2] @ [1], data = [5, 6 :: real]\<rparr>"
  let ?f = "\<lparr>shape = [1, 2] @ [1], data = [1, 0 :: real]\<rparr>"
  have tm: "wf_module (transition_model example_rssm)" by (rule example_rssm_wf)
  have K: "discrete example_rssm = 2" "0 < (2 :: nat)" by (simp_all add: example_rssm_wf)
  have out: "out_features (transition_model example_rssm) = 1 * 2" by (rule example_rssm_wf)
  have N: "0 < (1 :: nat)" by simp
  have ld: "length [1, 2 :: nat] = 2" and batch: "0 < prod_list [1, 2 :: nat]" by simp_all
  have wfp: "wf_tensor ?p" and wfh: "wf_tensor ?h" and wfa: "wf_tensor ?a" and wff: "wf_tensor ?f"
    by (simp_all add: wf_tensor_def)
  have shp: "shape ?p = [1, 2] @ [1, 2]" and shh: "shape ?h = [1, 2] @ [1]"
    and sha: "shape ?a = [1, 2] @ [1]" and shf: "shape ?f = [1, 2] @ [1]" by simp_all
  have b0: "(0 :: nat) < prod_list [1, 2]" and b1: "(1 :: nat) < prod_list [1, 2]" by simp_all
  have f0: "data ?f ! 0 = 1" and f1: "data ?f ! 1 = 0" by simp_all
  note t0 = dynamic_reset_positions [OF tm K out N ld batch wfp shp wfh shh N wfa sha N wff shf b0,
      of "1 / 8388608" "\<lambda>i l. l"]
  note t1 = dynamic_reset_positions [OF tm K out N ld batch wfp shp wfh shh N wfa sha N wff shf b1,
      of "1 / 8388608" "\<lambda>i l. l"]
  have r0: "\<exists>a' h' p'. dynamic_reset (1 / 8388608) example_rssm ?p ?h ?a ?f = Inr (a', h', p')
         \<and> rows a' ! 0 = replicate 1 0 \<and> rows h' ! 0 = replicate 1 (tanh 0)"
    using t0 f0 by blast
  have r1: "\<exists>a' h' p'. dynamic_reset (1 / 8388608) example_rssm ?p ?h ?a ?f = Inr (a', h', p')
         \<and> rows a' ! 1 = rows ?a ! 1 \<and> rows h' ! 1 = rows ?h ! 1"
    using t1 f1 by blast
  from tm K out N ld batch wfp wfh wfa wff b0 b1 r0 r1 show ?thesis
    by blast
qed

end
